theory Spec2Isabelle
  imports Complex_Main "HOL-Library.Log_Nat"
begin

section \<open>The restaurant optimizer of \<^verbatim>\<open>RestaurantOptimization.py\<close>\<close>

text \<open>
  A shallow embedding of the class \<^verbatim>\<open>RestaurantOptimizer\<close> and of the part of
  \<^verbatim>\<open>RestaurantMainProcess.run\<close> that builds it.

  \<^item> Python's unbounded \<^verbatim>\<open>int\<close> is \<^typ>\<open>int\<close>; \<^verbatim>\<open>//\<close> is \<open>div\<close> (both round to
    minus infinity).
  \<^item> Python's \<^verbatim>\<open>float\<close> is the IEEE 754 double. A finite double is the rational it
    denotes; every operation that produces a float (\<^verbatim>\<open>int / int\<close>, \<^verbatim>\<open>float * int\<close>) is
    the exact result rounded to the nearest double, ties to the even significand
    (\<open>double_of_rat\<close>). A float that may be infinite or NaN (the horizon, which comes
    from \<^verbatim>\<open>float(text)\<close>) is a \<open>py_float\<close>. \<^verbatim>\<open>int(x)\<close> truncates a finite float towards
    zero and raises on an infinity or a NaN.
  \<^item> \<^verbatim>\<open>int / int\<close> raises \<^verbatim>\<open>OverflowError\<close> when the rounded quotient is beyond the
    largest double, that is from \<open>2 ^ 1024\<close> on, where \<open>double_of_rat\<close> goes on with an
    unbounded exponent. The quotients of the code (\<^verbatim>\<open>time_limit / time\<close>,
    \<^verbatim>\<open>price / time\<close>, \<^verbatim>\<open>count / max_makeable\<close>, \<^verbatim>\<open>count * time / 60\<close>) have a divisor
    \<open>\<ge> 1\<close>, so the two differ only for a dividend of that size. The constructor
    stores no such time limit (lemma \<open>constructor_time_limit_range\<close>); prices, counts
    and products of that size are outside the model.
  \<^item> A dictionary that the code only looks up (\<^verbatim>\<open>warehouse_storage\<close>, \<^verbatim>\<open>shop_storage\<close>,
    \<^verbatim>\<open>total_ingredients\<close>, \<^verbatim>\<open>purchase_plan\<close>) is a map. The dictionary
    \<^verbatim>\<open>Dish.ingredients\<close>, which the code iterates over with \<^verbatim>\<open>.items()\<close>, is an
    association list in iteration order; a Python dictionary has no duplicate keys,
    which is the predicate \<open>dict_keys_ok\<close> below.
  \<^item> The two JSON files are read outside the model: their contents (the dishes, the
    levels, the ingredient names) are arguments of the constructor.
\<close>

subsection \<open>Python values\<close>

datatype py_error = KeyError | ValueError | OverflowError | TypeError

type_synonym 'v dict = "string \<rightharpoonup> 'v"

definition get0 :: "int dict \<Rightarrow> string \<Rightarrow> int" where
  \<comment> \<open>\<^verbatim>\<open>d.get(key, 0)\<close>\<close>
  "get0 d k = (case d k of None \<Rightarrow> 0 | Some v \<Rightarrow> v)"

definition py_int :: "rat \<Rightarrow> int" where
  \<comment> \<open>\<^verbatim>\<open>int(x)\<close> on a finite float: truncation towards zero\<close>
  "py_int x = (if 0 \<le> x then \<lfloor>x\<rfloor> else \<lceil>x\<rceil>)"

subsection \<open>Doubles\<close>

definition round_half_even :: "rat \<Rightarrow> int" where
  \<comment> \<open>the nearest integer, a tie going to the even one\<close>
  "round_half_even x =
     (let f = \<lfloor>x\<rfloor>; d = x - of_int f
      in if d < 1 / 2 then f else if 1 / 2 < d then f + 1
         else if even f then f else f + 1)"

definition ilog2 :: "rat \<Rightarrow> int" where
  \<comment> \<open>for \<open>x > 0\<close>, the exponent \<open>e\<close> with \<open>2 ^ e \<le> x < 2 ^ (e + 1)\<close>, from the bit lengths
      of the numerator and the denominator\<close>
  "ilog2 x =
     (let (p, q) = quotient_of x; d = bitlen p - bitlen q
      in if 2 powi d \<le> x then d else d - 1)"

definition double_ulp :: "rat \<Rightarrow> rat" where
  \<comment> \<open>the spacing of the doubles around \<open>x\<close>: 53 significant bits, the exponent not
      below that of the subnormal numbers\<close>
  "double_ulp x = 2 powi (max (ilog2 \<bar>x\<bar>) (- 1022) - 52)"

definition double_of_rat :: "rat \<Rightarrow> rat" where
  \<comment> \<open>the exact value \<open>x\<close> rounded to the nearest double (round-half-even), the
      exponent unbounded above\<close>
  "double_of_rat x =
     (if x = 0 then 0
      else sgn x * of_int (round_half_even (\<bar>x\<bar> / double_ulp x)) * double_ulp x)"

definition double_overflows :: "rat \<Rightarrow> bool" where
  \<comment> \<open>a rounded value of magnitude \<open>2 ^ 1024\<close> or more is beyond the largest double\<close>
  "double_overflows p = (p \<noteq> 0 \<and> 1024 \<le> ilog2 \<bar>p\<bar>)"

datatype py_float = Finite rat | PosInf | NegInf | NaN

definition float_times_int :: "py_float \<Rightarrow> int \<Rightarrow> py_float" where
  \<comment> \<open>\<^verbatim>\<open>x * k\<close> for a float \<open>x\<close> and an int \<open>k > 0\<close>: an overflow gives an infinity\<close>
  "float_times_int x k =
     (case x of
        Finite q \<Rightarrow>
          (let p = double_of_rat (q * of_int k)
           in if double_overflows p then (if 0 < p then PosInf else NegInf) else Finite p)
      | PosInf \<Rightarrow> PosInf
      | NegInf \<Rightarrow> NegInf
      | NaN \<Rightarrow> NaN)"

definition int_of_float :: "py_float \<Rightarrow> py_error + int" where
  \<comment> \<open>\<^verbatim>\<open>int(x)\<close>: \<^verbatim>\<open>ValueError\<close> on a NaN, \<^verbatim>\<open>OverflowError\<close> on an infinity\<close>
  "int_of_float x =
     (case x of
        Finite q \<Rightarrow> Inr (py_int q)
      | NaN \<Rightarrow> Inl ValueError
      | PosInf \<Rightarrow> Inl OverflowError
      | NegInf \<Rightarrow> Inl OverflowError)"

subsection \<open>Dishes and the optimizer\<close>

record Dish =
  name :: string
  cookware :: string
  price :: int
  time :: int
  unlock_level :: int
  ingredients :: "(string \<times> int) list"

definition profit_rate :: "Dish \<Rightarrow> rat" where
  "profit_rate d =
     (if time d > 0 then double_of_rat (of_int (price d) / of_int (time d)) else 0)"

record MenuSolution =
  dish :: Dish
  count :: int
  bar_ratio :: rat

record Optimizer =
  time_limit :: int
  max_slots :: int
  warehouse_storage :: "int dict"
  purchasable_ingredients :: "int dict"
  unlocked_dishes :: "Dish list"
  total_ingredients :: "int dict"

record BestSolution =
  dishes :: "Dish list"
  counts :: "int list"
  profit :: int
  total_time_hours :: "rat list"

subsection \<open>The constructor\<close>

definition RestaurantOptimizer ::
  "Dish list \<Rightarrow> int dict \<Rightarrow> string list \<Rightarrow> int dict \<Rightarrow> int dict \<Rightarrow> py_float \<Rightarrow> int
     \<Rightarrow> py_error + Optimizer" where
  \<comment> \<open>\<^verbatim>\<open>__init__\<close>: \<open>loaded\<close> is the result of \<^verbatim>\<open>_load_dishes\<close>, \<open>levels\<close> and
      \<open>ingredient_names\<close> that of \<^verbatim>\<open>_load_levels_and_ingredients\<close>.
      \<^verbatim>\<open>int(time_limit * 60)\<close> comes first and raises on a NaN or an infinite product;
      \<^verbatim>\<open>levels[dish.cookware]\<close> raises on an unknown cookware.\<close>
  "RestaurantOptimizer loaded levels ingredient_names warehouse shop hours slots =
     (case int_of_float (float_times_int hours 60) of
        Inl e \<Rightarrow> Inl e
      | Inr minutes \<Rightarrow>
          if \<exists>d \<in> set loaded. levels (cookware d) = None then Inl KeyError
          else Inr \<lparr> time_limit = minutes,
                     max_slots = slots,
                     warehouse_storage = warehouse,
                     purchasable_ingredients = shop,
                     unlocked_dishes =
                       filter (\<lambda>d. unlock_level d \<le> the (levels (cookware d))) loaded,
                     total_ingredients =
                       (\<lambda>n. if n \<in> set ingredient_names
                            then Some (get0 warehouse n + get0 shop n) else None) \<rparr>)"

definition default_hours :: py_float where
  \<comment> \<open>the default \<^verbatim>\<open>time_limit = 24\<close>; \<^verbatim>\<open>int(24 * 60)\<close> is 1440 for the int as for the float\<close>
  "default_hours = Finite 24"

definition default_slots :: int where
  "default_slots = 2"

definition run_optimizer ::
  "Dish list \<Rightarrow> int dict \<Rightarrow> string list \<Rightarrow> int dict \<Rightarrow> int dict \<Rightarrow> py_error + py_float
     \<Rightarrow> py_error + Optimizer" where
  \<comment> \<open>The \<^verbatim>\<open>try\<close> block of \<^verbatim>\<open>RestaurantMainProcess.run\<close>; the last argument is the result
      of \<^verbatim>\<open>float(estimated_selling_time)\<close>, which raises \<^verbatim>\<open>ValueError\<close> on a text that
      is not a number and \<^verbatim>\<open>TypeError\<close> on a value that is no text. The constructor call
      is inside the \<^verbatim>\<open>try\<close> too. Only \<^verbatim>\<open>ValueError\<close> is caught (\<^verbatim>\<open>JSONDecodeError\<close> is
      one); the handler calls the constructor again, with the defaults.\<close>
  "run_optimizer loaded levels ingredient_names warehouse shop parsed =
     (case parsed of
        Inr decision_time \<Rightarrow>
          (case RestaurantOptimizer loaded levels ingredient_names warehouse shop
                  decision_time default_slots of
             Inl ValueError \<Rightarrow>
               RestaurantOptimizer loaded levels ingredient_names warehouse shop
                 default_hours default_slots
           | Inl e \<Rightarrow> Inl e
           | Inr optimizer \<Rightarrow> Inr optimizer)
      | Inl ValueError \<Rightarrow>
          RestaurantOptimizer loaded levels ingredient_names warehouse shop
            default_hours default_slots
      | Inl e \<Rightarrow> Inl e)"

subsection \<open>Limits\<close>

definition calc_time_limit :: "Optimizer \<Rightarrow> Dish \<Rightarrow> int" where
  \<comment> \<open>\<^verbatim>\<open>int(self.time_limit / dish.time)\<close>: the quotient is a double\<close>
  "calc_time_limit opt d =
     (if time d \<le> 0 then 0
      else py_int (double_of_rat (of_int (time_limit opt) / of_int (time d))))"

fun ingredient_limit_loop ::
  "(string \<times> int) list \<Rightarrow> int dict \<Rightarrow> int option \<Rightarrow> int option" where
  \<comment> \<open>the loop of \<^verbatim>\<open>_calc_ingredient_limit\<close>; \<open>None\<close> is \<^verbatim>\<open>float('inf')\<close>\<close>
  "ingredient_limit_loop [] available max_count = max_count"
| "ingredient_limit_loop ((ingredient, required) # rest) available max_count =
     (if required > 0
      then ingredient_limit_loop rest available
             (Some (case max_count of
                      None \<Rightarrow> get0 available ingredient div required
                    | Some m \<Rightarrow> min m (get0 available ingredient div required)))
      else ingredient_limit_loop rest available max_count)"

definition calc_ingredient_limit :: "Dish \<Rightarrow> int dict \<Rightarrow> int" where
  "calc_ingredient_limit d available =
     (case ingredient_limit_loop (ingredients d) available None of
        None \<Rightarrow> 0
      | Some m \<Rightarrow> m)"

definition optimize_single_dish :: "Optimizer \<Rightarrow> Dish \<Rightarrow> int \<times> int" where
  "optimize_single_dish opt d =
     (let cnt = min (calc_time_limit opt d)
                    (calc_ingredient_limit d (total_ingredients opt))
      in (cnt, cnt * price d))"

subsection \<open>The bar ratio\<close>

fun bar_ratio_loop ::
  "(string \<times> int) list \<Rightarrow> int \<Rightarrow> rat \<Rightarrow> int dict \<Rightarrow> rat \<times> int dict" where
  "bar_ratio_loop [] cnt ratio current_ingredients = (ratio, current_ingredients)"
| "bar_ratio_loop ((ingredient, required_amount) # rest) cnt ratio current_ingredients =
     (if required_amount \<le> 0
      then bar_ratio_loop rest cnt ratio current_ingredients
      else
        let current_amount = get0 current_ingredients ingredient;
            max_makeable = current_amount div required_amount;
            current_ratio = (if max_makeable > 0
                             then double_of_rat (of_int cnt / of_int max_makeable)
                             else 0);
            remaining_amount = current_amount - required_amount * cnt
        in bar_ratio_loop rest cnt (max current_ratio ratio)
             (current_ingredients
                (ingredient \<mapsto> (if remaining_amount < 0 then 0 else remaining_amount))))"

definition calc_bar_ratio :: "Dish \<Rightarrow> int \<Rightarrow> int dict \<Rightarrow> rat \<times> int dict" where
  "calc_bar_ratio d cnt available_ingredients =
     bar_ratio_loop (ingredients d) cnt 0 available_ingredients"

subsection \<open>Two dishes\<close>

fun used_loop ::
  "(string \<times> int) list \<Rightarrow> int \<Rightarrow> int dict \<Rightarrow> int dict \<Rightarrow> int dict option" where
  \<comment> \<open>the inner \<^verbatim>\<open>for\<close> of \<^verbatim>\<open>_optimize_two_dishes\<close>; \<open>None\<close> is \<^verbatim>\<open>can_make = False\<close>\<close>
  "used_loop [] count1 pool used_ingredients = Some used_ingredients"
| "used_loop ((ingredient, required) # rest) count1 pool used_ingredients =
     (if count1 * required > get0 pool ingredient then None
      else used_loop rest count1 pool (used_ingredients(ingredient \<mapsto> count1 * required)))"

definition remaining_after :: "int dict \<Rightarrow> int dict \<Rightarrow> int dict" where
  "remaining_after pool used_ingredients =
     (\<lambda>n. case pool n of None \<Rightarrow> None
                        | Some t \<Rightarrow> Some (t - get0 used_ingredients n))"

fun two_dishes_loop ::
  "Optimizer \<Rightarrow> Dish \<Rightarrow> Dish \<Rightarrow> int \<Rightarrow> bool \<Rightarrow> int list \<Rightarrow> int list \<times> int
     \<Rightarrow> int list \<times> int" where
  \<comment> \<open>the \<^verbatim>\<open>for count1 in range(time_limit1 + 1)\<close> loop, on the values still to visit;
      \<^verbatim>\<open>break\<close> returns the best found so far\<close>
  "two_dishes_loop opt dish1 dish2 time_limit2 swapped [] best = best"
| "two_dishes_loop opt dish1 dish2 time_limit2 swapped (count1 # rest) best =
     (case used_loop (ingredients dish1) count1 (total_ingredients opt) Map.empty of
        None \<Rightarrow> best
      | Some used_ingredients \<Rightarrow>
          let remaining_ingredients =
                remaining_after (total_ingredients opt) used_ingredients;
              count2 = min time_limit2 (calc_ingredient_limit dish2 remaining_ingredients);
              p = count1 * price dish1 + count2 * price dish2
          in two_dishes_loop opt dish1 dish2 time_limit2 swapped rest
               (if p > snd best
                then (if swapped then [count2, count1] else [count1, count2], p)
                else best))"

definition optimize_two_dishes :: "Optimizer \<Rightarrow> Dish \<Rightarrow> Dish \<Rightarrow> int list \<times> int" where
  "optimize_two_dishes opt dish1 dish2 =
     (if profit_rate dish1 < profit_rate dish2
      then two_dishes_loop opt dish2 dish1 (calc_time_limit opt dish1) True
             [0 .. calc_time_limit opt dish2] ([0, 0], 0)
      else two_dishes_loop opt dish1 dish2 (calc_time_limit opt dish2) False
             [0 .. calc_time_limit opt dish1] ([0, 0], 0))"

subsection \<open>The search and the plan\<close>

fun combinations2 :: "'a list \<Rightarrow> ('a \<times> 'a) list" where
  \<comment> \<open>\<^verbatim>\<open>itertools.combinations(xs, 2)\<close>\<close>
  "combinations2 [] = []"
| "combinations2 (x # xs) = map (Pair x) xs @ combinations2 xs"

definition empty_solution :: BestSolution where
  "empty_solution = \<lparr> dishes = [], counts = [], profit = 0, total_time_hours = [] \<rparr>"

fun single_phase :: "Optimizer \<Rightarrow> Dish list \<Rightarrow> BestSolution \<Rightarrow> BestSolution" where
  "single_phase opt [] best_solution = best_solution"
| "single_phase opt (d # rest) best_solution =
     (let (cnt, p) = optimize_single_dish opt d
      in single_phase opt rest
           (if p > profit best_solution
            then \<lparr> dishes = [d], counts = [cnt], profit = p,
                   total_time_hours = [double_of_rat (of_int (cnt * time d) / 60)] \<rparr>
            else best_solution))"

fun two_phase :: "Optimizer \<Rightarrow> (Dish \<times> Dish) list \<Rightarrow> BestSolution \<Rightarrow> BestSolution" where
  "two_phase opt [] best_solution = best_solution"
| "two_phase opt ((dish1, dish2) # rest) best_solution =
     (let (cs, p) = optimize_two_dishes opt dish1 dish2
      in two_phase opt rest
           (if p > profit best_solution
            then \<lparr> dishes = [dish1, dish2], counts = cs, profit = p,
                   total_time_hours = [double_of_rat (of_int (cs ! 0 * time dish1) / 60),
                                       double_of_rat (of_int (cs ! 1 * time dish2) / 60)] \<rparr>
            else best_solution))"

definition search :: "Optimizer \<Rightarrow> BestSolution" where
  \<comment> \<open>lines 199 to 230 of \<^verbatim>\<open>find_best_solution\<close>\<close>
  "search opt =
     (let best_solution = single_phase opt (unlocked_dishes opt) empty_solution
      in if max_slots opt \<ge> 2
         then two_phase opt (combinations2 (unlocked_dishes opt)) best_solution
         else best_solution)"

fun demand_loop :: "(string \<times> int) list \<Rightarrow> int \<Rightarrow> int dict \<Rightarrow> int dict \<Rightarrow> int dict" where
  "demand_loop [] cnt shop purchase_plan = purchase_plan"
| "demand_loop ((ingredient_name, ingredient_demand) # rest) cnt shop purchase_plan =
     demand_loop rest cnt shop
       (if shop ingredient_name \<noteq> None
        then purchase_plan(ingredient_name \<mapsto>
               (case purchase_plan ingredient_name of
                  Some v \<Rightarrow> v + ingredient_demand * cnt
                | None \<Rightarrow> ingredient_demand * cnt))
        else purchase_plan)"

fun realize_loop ::
  "Optimizer \<Rightarrow> (Dish \<times> int) list \<Rightarrow> MenuSolution list \<Rightarrow> int dict \<Rightarrow> int dict
     \<Rightarrow> MenuSolution list \<times> int dict" where
  "realize_loop opt [] solutions purchase_plan remaining_ingredients =
     (solutions, purchase_plan)"
| "realize_loop opt ((d, cnt) # rest) solutions purchase_plan remaining_ingredients =
     (let (ratio, remaining') = calc_bar_ratio d cnt remaining_ingredients
      in realize_loop opt rest
           (solutions @ [\<lparr> dish = d, count = cnt, bar_ratio = ratio \<rparr>])
           (demand_loop (ingredients d) cnt (purchasable_ingredients opt) purchase_plan)
           remaining')"

definition rectify :: "int dict \<Rightarrow> int dict \<Rightarrow> int dict" where
  \<comment> \<open>the last loop: subtract what the warehouse holds, clamp at 0\<close>
  "rectify warehouse purchase_plan =
     (\<lambda>n. case purchase_plan n of None \<Rightarrow> None
          | Some demand \<Rightarrow>
              let rectified_demand = demand - get0 warehouse n
              in Some (if rectified_demand > 0 then rectified_demand else 0))"

definition realize :: "Optimizer \<Rightarrow> (Dish \<times> int) list \<Rightarrow> MenuSolution list \<times> int dict" where
  \<comment> \<open>lines 232 to 255 of \<^verbatim>\<open>find_best_solution\<close>, on the chosen dishes and counts\<close>
  "realize opt allocation =
     (let (solutions, purchase_plan) =
            realize_loop opt allocation [] Map.empty (total_ingredients opt)
      in (solutions, rectify (warehouse_storage opt) purchase_plan))"

definition find_best_solution :: "Optimizer \<Rightarrow> MenuSolution list \<times> int dict" where
  \<comment> \<open>\<^verbatim>\<open>best_solution['counts'][idx]\<close> for every index of \<^verbatim>\<open>best_solution['dishes']\<close>: the two
      lists have the same length in every solution the search builds\<close>
  "find_best_solution opt =
     (let best_solution = search opt
      in realize opt (zip (dishes best_solution) (counts best_solution)))"

subsection \<open>Notions of the specification\<close>

definition required :: "Dish \<Rightarrow> string \<Rightarrow> int" where
  "required d n = get0 (map_of (ingredients d)) n"

definition dict_keys_ok :: "Dish \<Rightarrow> bool" where
  "dict_keys_ok d = distinct (map fst (ingredients d))"

definition pool_nonneg :: "int dict \<Rightarrow> bool" where
  "pool_nonneg pool = (\<forall>n. 0 \<le> get0 pool n)"

definition degenerate :: "Dish \<Rightarrow> bool" where
  "degenerate d = (\<forall>(i, r) \<in> set (ingredients d). r \<le> 0)"

definition inner_count :: "Optimizer \<Rightarrow> Dish \<Rightarrow> int \<Rightarrow> int dict \<Rightarrow> int" where
  "inner_count opt dish2 time_limit2 u =
     min time_limit2
       (calc_ingredient_limit dish2 (remaining_after (total_ingredients opt) u))"

definition requirements_nonneg :: "Dish \<Rightarrow> bool" where
  "requirements_nonneg d = (\<forall>(i, r) \<in> set (ingredients d). 0 \<le> r)"

definition pair_pick :: "Optimizer \<Rightarrow> Dish \<Rightarrow> Dish \<Rightarrow> int \<Rightarrow> int \<Rightarrow> bool" where
  "pair_pick opt d1 d2 c1 c2 \<longleftrightarrow>
     0 \<le> c1 \<and> c1 \<le> calc_time_limit opt d1 \<and>
     (\<exists>u. used_loop (ingredients d1) c1 (total_ingredients opt) Map.empty = Some u \<and>
          c2 = inner_count opt d2 (calc_time_limit opt d2) u)"

definition allocation :: "MenuSolution list \<Rightarrow> (Dish \<times> int) list" where
  "allocation sols = map (\<lambda>s. (dish s, count s)) sols"

definition demand :: "(Dish \<times> int) list \<Rightarrow> string \<Rightarrow> int" where
  "demand alloc n = (\<Sum>(d, c) \<leftarrow> alloc. c * required d n)"

definition dish_stew :: Dish where
  "dish_stew = \<lparr> name = ''stew'', cookware = ''pot'', price = 30, time = 120,
                  unlock_level = 1, ingredients = [(''x'', 2), (''y'', 1)] \<rparr>"

definition dish_soup :: Dish where
  "dish_soup = \<lparr> name = ''soup'', cookware = ''pot'', price = 10, time = 60,
                  unlock_level = 1, ingredients = [(''x'', 1)] \<rparr>"

definition kitchen :: Optimizer where
  "kitchen = \<lparr> time_limit = 240, max_slots = 2,
                warehouse_storage = [''x'' \<mapsto> 3, ''y'' \<mapsto> 2],
                purchasable_ingredients = [''x'' \<mapsto> 2],
                unlocked_dishes = [dish_stew, dish_soup],
                total_ingredients = [''x'' \<mapsto> 5, ''y'' \<mapsto> 2] \<rparr>"

definition dish_broth :: Dish where
  "dish_broth = \<lparr> name = ''broth'', cookware = ''pot'', price = 10, time = 60,
                   unlock_level = 1, ingredients = [(''x'', 1)] \<rparr>"

definition stocked :: Optimizer where
  "stocked = \<lparr> time_limit = 120, max_slots = 2,
                warehouse_storage = [''x'' \<mapsto> 5],
                purchasable_ingredients = [''x'' \<mapsto> 1],
                unlocked_dishes = [dish_broth],
                total_ingredients = [''x'' \<mapsto> 6] \<rparr>"

definition demanded :: "(Dish \<times> int) list \<Rightarrow> string \<Rightarrow> bool" where
  "demanded alloc n = list_ex (\<lambda>(d, c). n \<in> fst ` set (ingredients d)) alloc"


definition dish_free :: Dish where
  "dish_free = \<lparr> name = ''free'', cookware = ''pot'', price = 20, time = 60,
                  unlock_level = 1, ingredients = [] \<rparr>"

definition buffet :: Optimizer where
  "buffet = \<lparr> time_limit = 1440, max_slots = 2,
               warehouse_storage = [''x'' \<mapsto> 3],
               purchasable_ingredients = Map.empty,
               unlocked_dishes = [dish_free, dish_broth],
               total_ingredients = [''x'' \<mapsto> 3] \<rparr>"

definition single_item_best_profit :: "Optimizer \<Rightarrow> int" where
  \<comment> \<open>the best profit after the single-dish loop, started from the empty solution\<close>
  "single_item_best_profit opt =
     profit (single_phase opt (unlocked_dishes opt) empty_solution)"

definition two_item_best_profit :: "Optimizer \<Rightarrow> int" where
  \<comment> \<open>the best profit the two-dish loop finds on its own, started from the empty solution\<close>
  "two_item_best_profit opt =
     profit (two_phase opt (combinations2 (unlocked_dishes opt)) empty_solution)"

definition dish_sour :: Dish where
  "dish_sour = \<lparr> name = ''sour'', cookware = ''pot'', price = - 1, time = 60,
                  unlock_level = 1, ingredients = [(''x'', 1)] \<rparr>"

definition cursed :: Optimizer where
  "cursed = \<lparr> time_limit = - 120, max_slots = 2,
               warehouse_storage = [''x'' \<mapsto> 1],
               purchasable_ingredients = Map.empty,
               unlocked_dishes = [dish_sour],
               total_ingredients = [''x'' \<mapsto> 1] \<rparr>"

fun threaded_ratios :: "int dict \<Rightarrow> (Dish \<times> int) list \<Rightarrow> rat list" where
  \<comment> \<open>the ratio of each entry against the pool left by the entries before it\<close>
  "threaded_ratios pool [] = []"
| "threaded_ratios pool ((d, c) # rest) =
     fst (calc_bar_ratio d c pool) # threaded_ratios (snd (calc_bar_ratio d c pool)) rest"

definition ingredient_ratio :: "int \<Rightarrow> (string \<Rightarrow> int) \<Rightarrow> string \<times> int \<Rightarrow> rat" where
  \<comment> \<open>\<^verbatim>\<open>count / max_makeable\<close> for one required ingredient, 0 when nothing is makeable\<close>
  "ingredient_ratio cnt remaining =
     (\<lambda>(r, required_amount).
        let max_makeable = remaining r div required_amount
        in if max_makeable > 0 then double_of_rat (of_int cnt / of_int max_makeable) else 0)"

definition spec_fill_ratio :: "Dish \<Rightarrow> int \<Rightarrow> (string \<Rightarrow> int) \<Rightarrow> rat" where
  \<comment> \<open>The fill ratio in the words of the specification: the maximum, over the required
      ingredients with a positive amount, of \<^verbatim>\<open>count / max_makeable\<close> against the
      remaining quantities; 0 if the dish requires nothing.\<close>
  "spec_fill_ratio d cnt remaining =
     Max (set (0 # map (ingredient_ratio cnt remaining)
                      (filter (\<lambda>(r, required_amount). required_amount > 0) (ingredients d))))"

definition dish_neg :: Dish where
  "dish_neg = \<lparr> name = ''yield'', cookware = ''pot'', price = 1, time = 60,
                 unlock_level = 1, ingredients = [(''x'', - 1)] \<rparr>"

definition dish_plain :: Dish where
  "dish_plain = \<lparr> name = ''plain'', cookware = ''pot'', price = 1, time = 60,
                   unlock_level = 1, ingredients = [(''x'', 1)] \<rparr>"

definition surplus :: Optimizer where
  "surplus = \<lparr> time_limit = 1440, max_slots = 2,
                warehouse_storage = [''x'' \<mapsto> 1],
                purchasable_ingredients = Map.empty,
                unlocked_dishes = [dish_neg, dish_plain],
                total_ingredients = [''x'' \<mapsto> 1] \<rparr>"

definition dish_snack :: Dish where
  "dish_snack = \<lparr> name = ''snack'', cookware = ''pot'', price = 1, time = 11,
                   unlock_level = 1, ingredients = [(''x'', 1)] \<rparr>"

definition marathon :: Optimizer where
  "marathon = \<lparr> time_limit = 60000000000000000, max_slots = 2,
                 warehouse_storage = [''x'' \<mapsto> 6000000000000000],
                 purchasable_ingredients = Map.empty,
                 unlocked_dishes = [dish_snack],
                 total_ingredients = [''x'' \<mapsto> 6000000000000000] \<rparr>"

section \<open>Properties\<close>

subsection \<open>Rounding to a double\<close>

lemma rhe_cases: "round_half_even x = \<lfloor>x\<rfloor> \<or> round_half_even x = \<lfloor>x\<rfloor> + 1"
  by (simp add: round_half_even_def Let_def)

lemma rhe_of_int [simp]: "round_half_even (of_int k) = k"
  by (simp add: round_half_even_def Let_def)

lemma rhe_ge: "of_int k \<le> x \<Longrightarrow> k \<le> round_half_even x"
proof -
  assume "of_int k \<le> x"
  then have "k \<le> \<lfloor>x\<rfloor>" by (simp add: le_floor_iff)
  then show ?thesis using rhe_cases [of x] by linarith
qed

lemma rhe_le: "x \<le> of_int k \<Longrightarrow> round_half_even x \<le> k"
proof (cases "x = of_int k")
  case True
  then show ?thesis by simp
next
  case False
  assume "x \<le> of_int k"
  then have "x < of_int k" using False by simp
  then have "\<lfloor>x\<rfloor> < k" by (simp add: floor_less_iff)
  then show ?thesis using rhe_cases [of x] by linarith
qed

lemma rhe_less: "x < of_int k - 1 / 2 \<Longrightarrow> round_half_even x < k"
proof -
  assume a: "x < of_int k - 1 / 2"
  then have "x < of_int k" by linarith
  then have f: "\<lfloor>x\<rfloor> < k" by (simp add: floor_less_iff)
  show ?thesis
  proof (cases "\<lfloor>x\<rfloor> + 1 < k")
    case True
    then show ?thesis using rhe_cases [of x] by linarith
  next
    case False
    then have k: "k = \<lfloor>x\<rfloor> + 1" using f by linarith
    have "x - of_int \<lfloor>x\<rfloor> < 1 / 2" using a unfolding k by simp
    then have "round_half_even x = \<lfloor>x\<rfloor>" by (simp add: round_half_even_def Let_def)
    then show ?thesis using f by simp
  qed
qed

lemma two_powi_nat: "0 \<le> k \<Longrightarrow> (2::rat) ^ nat k = 2 powi k"
  by (simp add: power_int_def)

lemma ilog2_bounds:
  assumes "0 < x"
  shows "2 powi (ilog2 x) \<le> x" and "x < 2 powi (ilog2 x + 1)"
proof -
  obtain p q where pq: "quotient_of x = (p, q)" by (cases "quotient_of x")
  have q: "0 < q" using pq by (rule quotient_of_denom_pos)
  have x: "x = of_int p / of_int q" using pq by (rule quotient_of_div)
  have p: "0 < p" using assms q unfolding x by (simp add: zero_less_divide_iff)
  define bp where "bp = bitlen p"
  define bq where "bq = bitlen q"
  have bp: "2 ^ nat (bp - 1) \<le> p" "p < 2 ^ nat bp"
    using bitlen_bounds [OF p] by (simp_all add: bp_def)
  have bq: "2 ^ nat (bq - 1) \<le> q" "q < 2 ^ nat bq"
    using bitlen_bounds [OF q] by (simp_all add: bq_def)
  have bp1: "1 \<le> bp" using p by (simp add: bp_def bitlen_alt_def)
  have bq1: "1 \<le> bq" using q by (simp add: bq_def bitlen_alt_def)
  have P: "(2::rat) powi (bp - 1) \<le> of_int p" "(of_int p :: rat) < 2 powi bp"
  proof -
    have "(of_int (2 ^ nat (bp - 1)) :: rat) \<le> of_int p" using bp(1) by (simp only: of_int_le_iff)
    then show "(2::rat) powi (bp - 1) \<le> of_int p" using bp1 by (simp add: two_powi_nat)
    have "(of_int p :: rat) < of_int (2 ^ nat bp)" using bp(2) by (simp only: of_int_less_iff)
    then show "(of_int p :: rat) < 2 powi bp" using bp1 by (simp add: two_powi_nat)
  qed
  have Q: "(2::rat) powi (bq - 1) \<le> of_int q" "(of_int q :: rat) < 2 powi bq"
  proof -
    have "(of_int (2 ^ nat (bq - 1)) :: rat) \<le> of_int q" using bq(1) by (simp only: of_int_le_iff)
    then show "(2::rat) powi (bq - 1) \<le> of_int q" using bq1 by (simp add: two_powi_nat)
    have "(of_int q :: rat) < of_int (2 ^ nat bq)" using bq(2) by (simp only: of_int_less_iff)
    then show "(of_int q :: rat) < 2 powi bq" using bq1 by (simp add: two_powi_nat)
  qed
  have qpos: "(0::rat) < of_int q" using q by simp
  have ppos: "(0::rat) < of_int p" using p by simp
  have lo: "(2::rat) powi (bp - bq - 1) \<le> x"
  proof -
    have "(2::rat) powi (bp - bq - 1) = 2 powi (bp - 1) / 2 powi bq"
      using power_int_diff [of "2::rat" "bp - 1" bq] by (simp add: algebra_simps)
    also have "\<dots> \<le> of_int p / 2 powi bq"
      using P(1) by (simp add: divide_right_mono)
    also have "\<dots> \<le> of_int p / of_int q"
      using Q(2) qpos ppos by (simp add: frac_le)
    finally show ?thesis unfolding x .
  qed
  have hi: "x < (2::rat) powi (bp - bq + 1)"
  proof -
    have pw: "(0::rat) < 2 powi (bq - 1)" by simp
    have "of_int p / of_int q \<le> of_int p / (2::rat) powi (bq - 1)"
      using Q(1) ppos pw by (simp add: frac_le)
    also have "\<dots> < 2 powi bp / 2 powi (bq - 1)"
      using P(2) pw by (simp add: divide_strict_right_mono)
    also have "\<dots> = 2 powi (bp - bq + 1)"
      using power_int_diff [of "2::rat" bp "bq - 1"] by (simp add: algebra_simps)
    finally show ?thesis unfolding x .
  qed
  have il: "ilog2 x = (if 2 powi (bp - bq) \<le> x then bp - bq else bp - bq - 1)"
    using pq by (simp add: ilog2_def bp_def bq_def Let_def)
  show "2 powi (ilog2 x) \<le> x" using lo by (simp add: il)
  show "x < 2 powi (ilog2 x + 1)" using hi by (auto simp: il)
qed

lemma double_ulp_pos [simp]: "0 < double_ulp x"
  by (simp add: double_ulp_def)

lemma double_ulp_nonneg [simp]: "0 \<le> double_ulp x"
  using double_ulp_pos [of x] by (rule less_imp_le)

lemma double_ulp_nonzero [simp]: "double_ulp x \<noteq> 0"
  using double_ulp_pos [of x] by (rule less_imp_neq [symmetric])

lemma double_of_rat_pos_eq:
  "0 < x \<Longrightarrow> double_of_rat x = of_int (round_half_even (x / double_ulp x)) * double_ulp x"
  by (simp add: double_of_rat_def)

lemma double_ulp_minus [simp]: "double_ulp (- x) = double_ulp x"
  by (simp add: double_ulp_def)

lemma double_of_rat_minus: "double_of_rat (- x) = - double_of_rat x"
  by (simp add: double_of_rat_def sgn_minus)

lemma double_of_rat_nonneg: "0 \<le> x \<Longrightarrow> 0 \<le> double_of_rat x"
proof (cases "x = 0")
  case True
  then show ?thesis by (simp add: double_of_rat_def)
next
  case False
  assume "0 \<le> x"
  then have x: "0 < x" using False by simp
  then have "(of_int 0 :: rat) \<le> x / double_ulp x" by simp
  then have "0 \<le> round_half_even (x / double_ulp x)" by (rule rhe_ge)
  then show ?thesis using x by (simp add: double_of_rat_pos_eq)
qed

lemma double_of_rat_nonpos: "x \<le> 0 \<Longrightarrow> double_of_rat x \<le> 0"
  using double_of_rat_nonneg [of "- x"] by (simp add: double_of_rat_minus)

text \<open>A value on the grid of \<open>x\<close> that bounds \<open>x\<close> also bounds its double.\<close>

lemma double_of_rat_grid_le:
  assumes "0 < x" "x \<le> of_int k * double_ulp x"
  shows "double_of_rat x \<le> of_int k * double_ulp x"
proof -
  have "x / double_ulp x \<le> of_int k" using assms(2) by (simp add: pos_divide_le_eq)
  then have "round_half_even (x / double_ulp x) \<le> k" by (rule rhe_le)
  then have "(of_int (round_half_even (x / double_ulp x)) :: rat) \<le> of_int k"
    by (simp only: of_int_le_iff)
  then show ?thesis using assms(1) by (simp add: double_of_rat_pos_eq)
qed

lemma double_of_rat_grid_ge:
  assumes "0 < x" "of_int k * double_ulp x \<le> x"
  shows "of_int k * double_ulp x \<le> double_of_rat x"
proof -
  have "of_int k \<le> x / double_ulp x" using assms(2) by (simp add: pos_le_divide_eq)
  then have "k \<le> round_half_even (x / double_ulp x)" by (rule rhe_ge)
  then have "(of_int k :: rat) \<le> of_int (round_half_even (x / double_ulp x))"
    by (simp only: of_int_le_iff)
  then show ?thesis using assms(1) by (simp add: double_of_rat_pos_eq)
qed

lemma double_of_rat_grid_less:
  assumes "0 < x" "x < of_int k * double_ulp x - double_ulp x / 2"
  shows "double_of_rat x < of_int k * double_ulp x"
proof -
  have "x / double_ulp x < (of_int k * double_ulp x - double_ulp x / 2) / double_ulp x"
    using assms(2) by (simp add: divide_strict_right_mono)
  also have "\<dots> = of_int k - 1 / 2" by (simp add: diff_divide_distrib)
  finally have "round_half_even (x / double_ulp x) < k" by (rule rhe_less)
  then have "(of_int (round_half_even (x / double_ulp x)) :: rat) < of_int k"
    by (simp only: of_int_less_iff)
  then show ?thesis using assms(1) by (simp add: double_of_rat_pos_eq)
qed

lemma ilog2_less:
  assumes "0 < x" "x < 2 powi N"
  shows "ilog2 x < N"
proof (rule ccontr)
  assume "\<not> ilog2 x < N"
  then have "N \<le> ilog2 x" by simp
  then have "(2::rat) powi N \<le> 2 powi (ilog2 x)" by (intro power_int_increasing) simp_all
  then show False using ilog2_bounds(1) [OF assms(1)] assms(2) by linarith
qed


lemma grid_int:
  assumes "0 < x" "x < 2 powi 53"
  shows "\<exists>k. (of_int n :: rat) = of_int k * double_ulp x"
proof -
  define j where "j = max (ilog2 x) (- 1022) - 52"
  have "ilog2 x < 53" using assms by (rule ilog2_less)
  then have j: "j \<le> 0" by (simp add: j_def)
  have u: "double_ulp x = 2 powi j" using assms(1) by (simp add: double_ulp_def j_def)
  have "(2::rat) ^ nat (- j) * 2 powi j = 2 powi (- j) * 2 powi j"
    using j by (simp add: two_powi_nat)
  also have "\<dots> = 2 powi (- j + j)" by (subst power_int_add) simp_all
  finally have one: "(2::rat) ^ nat (- j) * 2 powi j = 1" by simp
  have "(of_int (n * 2 ^ nat (- j)) :: rat) * double_ulp x
          = of_int n * ((2::rat) ^ nat (- j) * 2 powi j)"
    unfolding u by simp
  then have "(of_int n :: rat) = of_int (n * 2 ^ nat (- j)) * double_ulp x"
    unfolding one by simp
  then show ?thesis by blast
qed

lemma double_of_rat_int_ge:
  assumes "0 < x" "x < 2 powi 53" "of_int n \<le> x"
  shows "of_int n \<le> double_of_rat x"
proof -
  from grid_int [OF assms(1,2), of n] obtain k where k: "(of_int n :: rat) = of_int k * double_ulp x" ..
  show ?thesis using double_of_rat_grid_ge [OF assms(1), of k] assms(3) unfolding k by simp
qed

lemma double_of_rat_int_le:
  assumes "0 < x" "x < 2 powi 53" "x \<le> of_int n"
  shows "double_of_rat x \<le> of_int n"
proof -
  from grid_int [OF assms(1,2), of n] obtain k where k: "(of_int n :: rat) = of_int k * double_ulp x" ..
  show ?thesis using double_of_rat_grid_le [OF assms(1), of k] assms(3) unfolding k by simp
qed

lemma double_ulp_small:
  assumes a: "0 < a" "a < 2 ^ 53" and b: "0 < b"
    and x: "x = (of_int a / of_int b :: rat)"
  shows "double_ulp x / 2 < 1 / of_int b \<or> (x < 1 / 2 \<and> double_ulp x < 1)"
proof -
  have xpos: "0 < x" using a b x by simp
  have bpos: "(0::rat) < of_int b" using b by simp
  have a53: "(of_int a :: rat) < 2 ^ 53" using a(2) by (metis of_int_less_numeral_power_cancel_iff)
  show ?thesis
  proof (cases "- 1022 \<le> ilog2 x")
    case True
    then have "double_ulp x = 2 powi (ilog2 x - 52)" using xpos by (simp add: double_ulp_def)
    also have "\<dots> = 2 powi (ilog2 x) / 2 ^ 52"
      using power_int_diff [of "2::rat" "ilog2 x" 52] by simp
    also have "\<dots> \<le> x / 2 ^ 52"
      using ilog2_bounds(1) [OF xpos] by (simp add: divide_right_mono)
    also have "\<dots> = of_int a / (of_int b * 2 ^ 52)" by (simp add: x)
    also have "\<dots> < 2 ^ 53 / (of_int b * 2 ^ 52)"
      using a53 bpos by (intro divide_strict_right_mono) simp_all
    also have "\<dots> = 2 / of_int b" by simp
    finally have "double_ulp x / 2 < 1 / of_int b" by simp
    then show ?thesis ..
  next
    case False
    then have e: "ilog2 x + 1 \<le> - 1" by simp
    have "x < 2 powi (ilog2 x + 1)" by (rule ilog2_bounds(2) [OF xpos])
    also have "\<dots> \<le> 2 powi (- 1)" using e by (intro power_int_increasing) simp_all
    finally have half: "x < 1 / 2" by (simp add: power_int_minus)
    have "double_ulp x = 2 powi (- 1074)" using False xpos by (simp add: double_ulp_def max_def)
    also have "\<dots> < 2 powi 0" by (intro power_int_strict_increasing) simp_all
    finally have "double_ulp x < 1" by simp
    then show ?thesis using half by simp
  qed
qed

lemma truediv_floor:
  assumes a: "0 \<le> a" "a < 2 ^ 53" and b: "0 < b"
  shows "py_int (double_of_rat (of_int a / of_int b)) = a div b"
proof (cases "a = 0")
  case True
  then show ?thesis by (simp add: double_of_rat_def py_int_def)
next
  case False
  then have apos: "0 < a" using a(1) by simp
  define x :: rat where "x = of_int a / of_int b"
  define n where "n = a div b"
  have bpos: "(0::rat) < of_int b" using b by simp
  have xpos: "0 < x" using apos b by (simp add: x_def)
  have fl: "\<lfloor>x\<rfloor> = n" unfolding x_def n_def by (rule floor_divide_of_int_eq)
  have lo: "of_int n \<le> x" using fl by (metis of_int_floor_le)
  have a53: "(of_int a :: rat) < 2 ^ 53" using a(2) by (metis of_int_less_numeral_power_cancel_iff)
  have "x \<le> of_int a" using apos b unfolding x_def
    by (simp add: pos_divide_le_eq mult_le_cancel_left1)
  then have x53: "x < 2 powi 53" using a53 by simp
  have ge: "of_int n \<le> double_of_rat x" by (rule double_of_rat_int_ge [OF xpos x53 lo])
  have gap: "x \<le> of_int (n + 1) - 1 / of_int b"
  proof -
    have "a < (n + 1) * b" unfolding n_def using b
      by (metis add.commute div_mult_mod_eq mult.commute pos_mod_bound distrib_left mult.right_neutral add_strict_left_mono)
    then have "a + 1 \<le> (n + 1) * b" by simp
    then have "(of_int (a + 1) :: rat) \<le> of_int ((n + 1) * b)" by (simp only: of_int_le_iff)
    then have "(of_int a + 1 :: rat) / of_int b \<le> of_int (n + 1)"
      using bpos by (simp add: pos_divide_le_eq)
    then show ?thesis by (simp add: x_def add_divide_distrib)
  qed
  from grid_int [OF xpos x53, of "n + 1"] obtain k where
    k: "(of_int (n + 1) :: rat) = of_int k * double_ulp x" ..
  have "x < of_int k * double_ulp x - double_ulp x / 2"
    using double_ulp_small [OF apos a(2) b x_def]
  proof
    assume "double_ulp x / 2 < 1 / of_int b"
    then show ?thesis using gap unfolding k by linarith
  next
    assume s: "x < 1 / 2 \<and> double_ulp x < 1"
    have "0 \<le> n" unfolding n_def using a(1) b by (simp add: pos_imp_zdiv_nonneg_iff)
    then have "(1::rat) \<le> of_int (n + 1)" by simp
    then show ?thesis using s unfolding k [symmetric] by linarith
  qed
  then have "double_of_rat x < of_int k * double_ulp x" by (rule double_of_rat_grid_less [OF xpos])
  then have lt: "double_of_rat x < of_int n + 1" unfolding k [symmetric] by simp
  have "\<lfloor>double_of_rat x\<rfloor> = n" using ge lt by (simp add: floor_unique)
  moreover have "0 \<le> double_of_rat x" using xpos by (intro double_of_rat_nonneg) simp
  ultimately show ?thesis by (simp add: py_int_def x_def n_def)
qed

lemma double_ratio_bounds:
  fixes c m :: int
  assumes "0 \<le> c" "c \<le> m" "0 < m"
  shows "0 \<le> double_of_rat (of_int c / of_int m) \<and> double_of_rat (of_int c / of_int m) \<le> 1"
proof (cases "c = 0")
  case True
  then show ?thesis by (simp add: double_of_rat_def)
next
  case False
  define x :: rat where "x = of_int c / of_int m"
  have xpos: "0 < x" using assms False by (simp add: x_def)
  have x1: "x \<le> of_int 1" using assms by (simp add: x_def pos_divide_le_eq)
  have "(1::rat) < 2 powi 53" by simp
  then have x53: "x < 2 powi 53" using x1 by linarith
  have "double_of_rat x \<le> of_int 1" by (rule double_of_rat_int_le [OF xpos x53 x1])
  moreover have "0 \<le> double_of_rat x" using xpos by (intro double_of_rat_nonneg) simp
  ultimately show ?thesis by (simp add: x_def)
qed

lemma py_int_nonneg: "0 \<le> x \<Longrightarrow> 0 \<le> py_int x"
  by (simp add: py_int_def)

lemma py_int_nonpos: "x \<le> 0 \<Longrightarrow> py_int x \<le> 0"
  by (auto simp: py_int_def ceiling_le_zero dest: order_antisym)

text \<open>The largest double, \<open>2 ^ 1024 - 2 ^ 971\<close>, bounds every value that does not overflow.\<close>

lemma max_double_eq:
  "(of_int (2 ^ 53 - 1) :: rat) * 2 powi 971 = 2 powi 1024 - 2 powi 971"
proof -
  have "(2::rat) powi 1024 = 2 powi 53 * 2 powi 971"
    by (subst power_int_add [symmetric]) simp_all
  then show ?thesis by (simp add: algebra_simps)
qed

lemma half_le_max_double: "(2::rat) powi 1023 \<le> 2 powi 1024 - 2 powi 971"
proof -
  have a: "(2::rat) powi 1024 = 2 * 2 powi 1023"
    using power_int_add [of "2::rat" 1 1023] by simp
  have "(2::rat) powi 971 \<le> 2 powi 1023" by (intro power_int_increasing) simp_all
  then show ?thesis unfolding a by simp
qed

lemma double_le_low:
  assumes "0 < x" "ilog2 x \<le> 1022"
  shows "double_of_rat x \<le> 2 powi 1023"
proof -
  define j where "j = max (ilog2 x) (- 1022)"
  have j: "j \<le> 1022" "ilog2 x \<le> j" using assms(2) by (simp_all add: j_def)
  have u: "double_ulp x = 2 powi (j - 52)" using assms(1) by (simp add: double_ulp_def j_def)
  have grid: "(2::rat) powi (j + 1) = of_int (2 ^ 53) * double_ulp x"
    unfolding u using power_int_add [of "2::rat" 53 "j - 52"] by (simp add: add.commute)
  have "x < 2 powi (ilog2 x + 1)" by (rule ilog2_bounds(2) [OF assms(1)])
  also have "\<dots> \<le> 2 powi (j + 1)" using j(2) by (intro power_int_increasing) simp_all
  finally have "x \<le> of_int (2 ^ 53) * double_ulp x" unfolding grid by simp
  then have "double_of_rat x \<le> of_int (2 ^ 53) * double_ulp x"
    by (rule double_of_rat_grid_le [OF assms(1)])
  also have "\<dots> = 2 powi (j + 1)" by (rule grid [symmetric])
  also have "\<dots> \<le> 2 powi 1023" using j(1) by (intro power_int_increasing) simp_all
  finally show ?thesis .
qed

lemma double_ulp_top:
  assumes "0 < x" "ilog2 x = 1023"
  shows "double_ulp x = 2 powi 971"
  using assms by (simp add: double_ulp_def)

lemma double_le_max:
  assumes "0 < x" "x \<le> 2 powi 1024 - 2 powi 971"
  shows "double_of_rat x \<le> 2 powi 1024 - 2 powi 971"
proof -
  have "(0::rat) < 2 powi 971" by simp
  then have "x < 2 powi 1024" using assms(2) by linarith
  then have e: "ilog2 x < 1024" by (rule ilog2_less [OF assms(1)])
  show ?thesis
  proof (cases "ilog2 x = 1023")
    case True
    have u: "double_ulp x = 2 powi 971" by (rule double_ulp_top [OF assms(1) True])
    have "x \<le> of_int (2 ^ 53 - 1) * double_ulp x"
      unfolding u max_double_eq by (rule assms(2))
    then have "double_of_rat x \<le> of_int (2 ^ 53 - 1) * double_ulp x"
      by (rule double_of_rat_grid_le [OF assms(1)])
    then show ?thesis unfolding u max_double_eq .
  next
    case False
    then have "ilog2 x \<le> 1022" using e by simp
    then have "double_of_rat x \<le> 2 powi 1023" by (rule double_le_low [OF assms(1)])
    then show ?thesis using half_le_max_double by linarith
  qed
qed

lemma double_finite_le_max:
  assumes "0 < x" "\<not> double_overflows (double_of_rat x)"
  shows "double_of_rat x \<le> 2 powi 1024 - 2 powi 971"
proof -
  define p where "p = double_of_rat x"
  have p0: "0 \<le> p" unfolding p_def using assms(1) by (intro double_of_rat_nonneg) simp
  have lt: "p < 2 powi 1024"
  proof (cases "p = 0")
    case True
    then show ?thesis by simp
  next
    case False
    then have pos: "0 < p" using p0 by simp
    then have "ilog2 p < 1024" using assms(2) False by (simp add: double_overflows_def p_def)
    then have "ilog2 p + 1 \<le> 1024" by simp
    then have "(2::rat) powi (ilog2 p + 1) \<le> 2 powi 1024"
      by (intro power_int_increasing) simp_all
    then show ?thesis using ilog2_bounds(2) [OF pos] by linarith
  qed
  consider "ilog2 x \<le> 1022" | "ilog2 x = 1023" | "1024 \<le> ilog2 x" by linarith
  then show ?thesis
  proof cases
    case 1
    then have "double_of_rat x \<le> 2 powi 1023" by (rule double_le_low [OF assms(1)])
    then show ?thesis using half_le_max_double by linarith
  next
    case 2
    have u: "double_ulp x = 2 powi 971" by (rule double_ulp_top [OF assms(1) 2])
    define k where "k = round_half_even (x / double_ulp x)"
    have pk: "p = of_int k * 2 powi 971"
      using assms(1) by (simp add: p_def double_of_rat_pos_eq k_def u)
    have top: "(2::rat) powi 1024 = of_int (2 ^ 53) * 2 powi 971"
      using power_int_add [of "2::rat" 53 971] by simp
    have "(of_int k :: rat) * 2 powi 971 < of_int (2 ^ 53) * 2 powi 971"
      using lt unfolding pk top .
    then have "(of_int k :: rat) < of_int (2 ^ 53)" by (simp only: mult_less_cancel_right_pos zero_less_power_int zero_less_numeral)
    then have "k < 2 ^ 53" by (simp only: of_int_less_iff)
    then have "k \<le> 2 ^ 53 - 1" by simp
    then have "(of_int k :: rat) \<le> of_int (2 ^ 53 - 1)" by (simp only: of_int_le_iff)
    then have "p \<le> of_int (2 ^ 53 - 1) * 2 powi 971"
      unfolding pk by (intro mult_right_mono) simp_all
    then show ?thesis unfolding max_double_eq p_def .
  next
    case 3
    define e where "e = ilog2 x"
    have u: "double_ulp x = 2 powi (e - 52)" using assms(1) 3 by (simp add: double_ulp_def e_def)
    have grid: "(2::rat) powi e = of_int (2 ^ 52) * double_ulp x"
      unfolding u using power_int_add [of "2::rat" 52 "e - 52"] by simp
    have "of_int (2 ^ 52) * double_ulp x \<le> x"
      unfolding grid [symmetric] e_def by (rule ilog2_bounds(1) [OF assms(1)])
    then have "of_int (2 ^ 52) * double_ulp x \<le> double_of_rat x"
      by (rule double_of_rat_grid_ge [OF assms(1)])
    then have "2 powi e \<le> p" unfolding grid p_def .
    moreover have "(2::rat) powi 1024 \<le> 2 powi e"
      using 3 by (intro power_int_increasing) (simp_all add: e_def)
    ultimately show ?thesis using lt by linarith
  qed
qed

lemma double_overflows_minus [simp]: "double_overflows (- p) = double_overflows p"
  by (simp add: double_overflows_def)

lemma finite_double_abs_le:
  assumes "\<not> double_overflows (double_of_rat x)"
  shows "\<bar>double_of_rat x\<bar> \<le> 2 powi 1024 - 2 powi 971"
proof -
  have M: "(0::rat) \<le> 2 powi 1024 - 2 powi 971"
    using half_le_max_double zero_less_power_int [of "2::rat" 1023] by linarith
  consider "x = 0" | "0 < x" | "x < 0" by linarith
  then show ?thesis
  proof cases
    case 1
    then show ?thesis using M by (simp add: double_of_rat_def)
  next
    case 2
    have "0 \<le> double_of_rat x" using 2 by (intro double_of_rat_nonneg) simp
    then show ?thesis using double_finite_le_max [OF 2 assms] by simp
  next
    case 3
    then have pos: "0 < - x" by simp
    have n: "\<not> double_overflows (double_of_rat (- x))"
      using assms by (simp add: double_of_rat_minus)
    have "0 \<le> double_of_rat (- x)" using pos by (intro double_of_rat_nonneg) simp
    then show ?thesis using double_finite_le_max [OF pos n] by (simp add: double_of_rat_minus)
  qed
qed

lemma abs_le_max_finite:
  assumes "\<bar>y\<bar> \<le> 2 powi 1024 - 2 powi 971"
  shows "\<not> double_overflows (double_of_rat y)"
proof -
  have below: "\<not> double_overflows (double_of_rat z)"
    if z: "0 < z" "z \<le> 2 powi 1024 - 2 powi 971" for z
  proof (cases "double_of_rat z = 0")
    case True
    then show ?thesis by (simp add: double_overflows_def)
  next
    case False
    have "0 \<le> double_of_rat z" using z(1) by (intro double_of_rat_nonneg) simp
    then have pos: "0 < double_of_rat z" using False by simp
    have "(0::rat) < 2 powi 971" by simp
    then have "double_of_rat z < 2 powi 1024" using double_le_max [OF z] by linarith
    then have "ilog2 (double_of_rat z) < 1024" by (rule ilog2_less [OF pos])
    then show ?thesis using pos by (simp add: double_overflows_def)
  qed
  consider "y = 0" | "0 < y" | "y < 0" by linarith
  then show ?thesis
  proof cases
    case 1
    then show ?thesis by (simp add: double_of_rat_def double_overflows_def)
  next
    case 2
    then show ?thesis using below [of y] assms by simp
  next
    case 3
    then have "\<not> double_overflows (double_of_rat (- y))" using below [of "- y"] assms by simp
    then show ?thesis by (simp add: double_of_rat_minus)
  qed
qed

lemma py_int_abs_le: "\<bar>(of_int (py_int x) :: rat)\<bar> \<le> \<bar>x\<bar>"
proof (cases "0 \<le> x")
  case True
  then have "0 \<le> \<lfloor>x\<rfloor>" by simp
  then show ?thesis using True by (simp add: py_int_def)
next
  case False
  then have "\<lceil>x\<rceil> \<le> 0" by (simp add: ceiling_le_zero)
  then have "(of_int \<lceil>x\<rceil> :: rat) \<le> 0" by simp
  moreover have "x \<le> of_int \<lceil>x\<rceil>" by (rule le_of_int_ceiling)
  ultimately show ?thesis using False by (simp add: py_int_def)
qed

lemma quotient_abs_le:
  fixes a b :: int
  assumes "0 < b"
  shows "\<bar>(of_int a / of_int b :: rat)\<bar> \<le> \<bar>of_int a\<bar>"
proof -
  have "(1::rat) \<le> of_int b" using assms by simp
  then have "\<bar>of_int a :: rat\<bar> / of_int b \<le> \<bar>of_int a\<bar> / 1"
    by (intro divide_left_mono) simp_all
  then show ?thesis using assms by simp
qed


subsection \<open>The time limit\<close>

lemma calc_time_limit_nonneg: "0 \<le> time_limit opt \<Longrightarrow> 0 \<le> calc_time_limit opt d"
  by (simp add: calc_time_limit_def py_int_nonneg double_of_rat_nonneg)

lemma calc_time_limit_nonpos: "time_limit opt \<le> 0 \<Longrightarrow> calc_time_limit opt d \<le> 0"
proof (cases "time d \<le> 0")
  case True
  then show ?thesis by (simp add: calc_time_limit_def)
next
  case False
  assume "time_limit opt \<le> 0"
  then have "(of_int (time_limit opt) / of_int (time d) :: rat) \<le> 0"
    using False by (simp add: divide_nonpos_pos)
  then have "double_of_rat (of_int (time_limit opt) / of_int (time d)) \<le> 0"
    by (rule double_of_rat_nonpos)
  then show ?thesis using False by (simp add: calc_time_limit_def py_int_nonpos)
qed

lemma div_mult_le_int:
  fixes q r :: int
  assumes "0 < r"
  shows "q div r * r \<le> q"
proof -
  have "q div r * r + q mod r = q" by (rule div_mult_mod_eq)
  moreover have "0 \<le> q mod r" using assms by (rule pos_mod_sign)
  ultimately show ?thesis by linarith
qed

lemma calc_time_limit_exact:
  assumes "0 \<le> time_limit opt" "time_limit opt < 2 ^ 53" "0 < time d"
  shows "calc_time_limit opt d = time_limit opt div time d"
  using assms truediv_floor [OF assms] by (simp add: calc_time_limit_def)

lemma calc_time_limit_bound:
  assumes "0 \<le> time_limit opt" "time_limit opt < 2 ^ 53"
  shows "calc_time_limit opt d * time d \<le> time_limit opt"
proof (cases "time d \<le> 0")
  case True
  then show ?thesis using assms by (simp add: calc_time_limit_def)
next
  case False
  then have t: "0 < time d" by simp
  show ?thesis using div_mult_le_int [OF t, of "time_limit opt"]
    by (simp add: calc_time_limit_exact [OF assms t])
qed

lemma mult_le_of_le_div:
  fixes c q r :: int
  assumes "0 < r" "c \<le> q div r"
  shows "c * r \<le> q"
proof -
  have "c * r \<le> (q div r) * r" using assms by (simp add: mult_right_mono)
  also have "\<dots> \<le> q" using assms(1) by (rule div_mult_le_int)
  finally show ?thesis .
qed

lemma le_div_of_mult_le:
  fixes c q r :: int
  assumes "0 < r" "c * r \<le> q"
  shows "c \<le> q div r"
proof -
  have "(c * r) div r \<le> q div r" using assms by (intro zdiv_mono1)
  moreover have "(c * r) div r = c" using assms(1) by simp
  ultimately show ?thesis by simp
qed

lemma calc_time_limit_pos: "0 < calc_time_limit opt d \<Longrightarrow> 0 < time_limit opt"
  using calc_time_limit_nonpos [of opt d] by linarith

subsection \<open>The ingredient limit\<close>

lemma il_loop_Some: "ingredient_limit_loop xs av (Some m) \<noteq> None"
  by (induction xs arbitrary: m) auto

lemma il_loop_None_iff:
  "ingredient_limit_loop xs av m = None \<longleftrightarrow> m = None \<and> (\<forall>(i, r) \<in> set xs. r \<le> 0)"
  by (induction xs arbitrary: m) (auto simp: il_loop_Some split: if_splits)

lemma il_loop_le_acc: "ingredient_limit_loop xs av (Some m) = Some c \<Longrightarrow> c \<le> m"
proof (induction xs arbitrary: m)
  case Nil
  then show ?case by simp
next
  case (Cons x xs)
  obtain i r where x: "x = (i, r)" by (cases x)
  show ?case
  proof (cases "r > 0")
    case True
    with Cons.prems x have "ingredient_limit_loop xs av (Some (min m (get0 av i div r))) = Some c"
      by simp
    from Cons.IH [OF this] show ?thesis by simp
  next
    case False
    with Cons.prems x show ?thesis by (simp add: Cons.IH)
  qed
qed

lemma il_loop_le:
  "ingredient_limit_loop xs av m = Some c \<Longrightarrow> (i, r) \<in> set xs \<Longrightarrow> 0 < r
     \<Longrightarrow> c \<le> get0 av i div r"
proof (induction xs arbitrary: m)
  case Nil
  then show ?case by simp
next
  case (Cons x xs)
  obtain j q where x: "x = (j, q)" by (cases x)
  show ?case
  proof (cases "(i, r) = (j, q)")
    case True
    then have "ingredient_limit_loop xs av
        (Some (case m of None \<Rightarrow> get0 av i div r | Some m' \<Rightarrow> min m' (get0 av i div r))) = Some c"
      using Cons.prems x by (cases m) simp_all
    from il_loop_le_acc [OF this] show ?thesis by (cases m) auto
  next
    case False
    then have mem: "(i, r) \<in> set xs" using Cons.prems x by auto
    show ?thesis
    proof (cases "q > 0")
      case True
      with Cons.prems x show ?thesis using Cons.IH [OF _ mem \<open>0 < r\<close>] by simp
    next
      case False
      with Cons.prems x show ?thesis using Cons.IH [OF _ mem \<open>0 < r\<close>] by simp
    qed
  qed
qed

lemma il_loop_ge:
  "ingredient_limit_loop xs av m = Some c
     \<Longrightarrow> (\<forall>(i, r) \<in> set xs. 0 < r \<longrightarrow> k \<le> get0 av i div r)
     \<Longrightarrow> (\<forall>m'. m = Some m' \<longrightarrow> k \<le> m') \<Longrightarrow> k \<le> c"
proof (induction xs arbitrary: m)
  case Nil
  then show ?case by simp
next
  case (Cons x xs)
  obtain j q where x: "x = (j, q)" by (cases x)
  have rest: "\<forall>(i, r) \<in> set xs. 0 < r \<longrightarrow> k \<le> get0 av i div r"
    using Cons.prems(2) by auto
  show ?case
  proof (cases "q > 0")
    case True
    have kq: "k \<le> get0 av j div q" using Cons.prems(2) x True by auto
    let ?m = "Some (case m of None \<Rightarrow> get0 av j div q | Some m' \<Rightarrow> min m' (get0 av j div q))"
    have run: "ingredient_limit_loop xs av ?m = Some c" using Cons.prems(1) x True by simp
    have "\<forall>m'. ?m = Some m' \<longrightarrow> k \<le> m'" using kq Cons.prems(3) by (cases m) auto
    from Cons.IH [OF run rest this] show ?thesis .
  next
    case False
    then have "ingredient_limit_loop xs av m = Some c" using Cons.prems(1) x by simp
    from Cons.IH [OF this rest Cons.prems(3)] show ?thesis .
  qed
qed

lemma cil_degenerate: "degenerate d \<Longrightarrow> calc_ingredient_limit d av = 0"
  using il_loop_None_iff [of "ingredients d" av None]
  by (simp add: calc_ingredient_limit_def degenerate_def)

lemma cil_le:
  assumes "(i, r) \<in> set (ingredients d)" "0 < r"
  shows "calc_ingredient_limit d av \<le> get0 av i div r"
proof (cases "ingredient_limit_loop (ingredients d) av None")
  case None
  then show ?thesis using assms il_loop_None_iff [of "ingredients d" av None] by auto
next
  case (Some c)
  then show ?thesis using il_loop_le [OF Some assms] by (simp add: calc_ingredient_limit_def)
qed

lemma cil_ge:
  assumes "\<not> degenerate d" "\<forall>(i, r) \<in> set (ingredients d). 0 < r \<longrightarrow> k \<le> get0 av i div r"
  shows "k \<le> calc_ingredient_limit d av"
proof (cases "ingredient_limit_loop (ingredients d) av None")
  case None
  then show ?thesis using assms(1) il_loop_None_iff [of "ingredients d" av None]
    by (simp add: degenerate_def)
next
  case (Some c)
  then show ?thesis using il_loop_ge [OF Some assms(2)] by (simp add: calc_ingredient_limit_def)
qed

lemma cil_nonneg:
  assumes "pool_nonneg av"
  shows "0 \<le> calc_ingredient_limit d av"
proof (cases "degenerate d")
  case True
  then show ?thesis by (simp add: cil_degenerate)
next
  case False
  have "\<forall>(i, r) \<in> set (ingredients d). 0 < r \<longrightarrow> 0 \<le> get0 av i div r"
    using assms by (auto simp: pool_nonneg_def pos_imp_zdiv_nonneg_iff)
  from cil_ge [OF False this] show ?thesis .
qed

lemma il_loop_cong:
  "(\<forall>n. get0 av n = get0 av' n)
     \<Longrightarrow> ingredient_limit_loop xs av m = ingredient_limit_loop xs av' m"
  by (induction xs arbitrary: m) (auto cong: option.case_cong)

lemma cil_cong:
  "(\<forall>n. get0 av n = get0 av' n) \<Longrightarrow> calc_ingredient_limit d av = calc_ingredient_limit d av'"
  by (simp add: calc_ingredient_limit_def il_loop_cong [of av av'])

lemma get0_upd: "get0 (m(k \<mapsto> v)) n = (if n = k then v else get0 m n)"
  by (simp add: get0_def)

lemma get0_empty: "get0 Map.empty n = 0"
  by (simp add: get0_def)

lemma used_loop_Some_iff:
  "used_loop xs c pool u \<noteq> None \<longleftrightarrow> (\<forall>(i, r) \<in> set xs. c * r \<le> get0 pool i)"
proof (induction xs arbitrary: u)
  case Nil
  then show ?case by simp
next
  case (Cons x xs)
  obtain i r where x: "x = (i, r)" by (cases x)
  show ?case
  proof (cases "c * r \<le> get0 pool i")
    case True
    have step: "used_loop (x # xs) c pool u = used_loop xs c pool (u(i \<mapsto> c * r))"
      using True x by simp
    have rest: "(\<forall>(j, q) \<in> set (x # xs). c * q \<le> get0 pool j) \<longleftrightarrow>
                (\<forall>(j, q) \<in> set xs. c * q \<le> get0 pool j)"
      using True x by simp
    show ?thesis unfolding step rest by (rule Cons.IH)
  next
    case False
    then show ?thesis using x by auto
  qed
qed

lemma used_loop_le:
  "used_loop xs c pool u = Some u' \<Longrightarrow> (\<forall>n. get0 u n \<le> get0 pool n)
     \<Longrightarrow> get0 u' n \<le> get0 pool n"
proof (induction xs arbitrary: u)
  case Nil
  then show ?case by simp
next
  case (Cons x xs)
  obtain i r where x: "x = (i, r)" by (cases x)
  from Cons.prems(1) x have ok: "c * r \<le> get0 pool i"
    and run: "used_loop xs c pool (u(i \<mapsto> c * r)) = Some u'"
    by (auto split: if_splits)
  have "\<forall>n. get0 (u(i \<mapsto> c * r)) n \<le> get0 pool n"
    using ok Cons.prems(2) by (simp add: get0_upd)
  from Cons.IH [OF run this] show ?case .
qed

lemma used_loop_zero:
  "used_loop xs 0 pool u = Some u' \<Longrightarrow> (\<forall>n. get0 u n = 0) \<Longrightarrow> get0 u' n = 0"
proof (induction xs arbitrary: u)
  case Nil
  then show ?case by simp
next
  case (Cons x xs)
  obtain i r where x: "x = (i, r)" by (cases x)
  from Cons.prems(1) x have run: "used_loop xs 0 pool (u(i \<mapsto> 0)) = Some u'"
    by (auto split: if_splits)
  have "\<forall>n. get0 (u(i \<mapsto> 0)) n = 0" using Cons.prems(2) by (simp add: get0_upd)
  from Cons.IH [OF run this] show ?case .
qed

lemma used_loop_get0:
  "used_loop xs c pool u = Some u' \<Longrightarrow> distinct (map fst xs)
     \<Longrightarrow> get0 u' n = (if n \<in> fst ` set xs then c * get0 (map_of xs) n else get0 u n)"
proof (induction xs arbitrary: u)
  case Nil
  then show ?case by simp
next
  case (Cons x xs)
  obtain i r where x: "x = (i, r)" by (cases x)
  from Cons.prems(1) x have run: "used_loop xs c pool (u(i \<mapsto> c * r)) = Some u'"
    by (auto split: if_splits)
  from Cons.prems(2) x have d: "distinct (map fst xs)" and fresh: "i \<notin> fst ` set xs"
    by auto
  have ih: "get0 u' n = (if n \<in> fst ` set xs then c * get0 (map_of xs) n
                           else get0 (u(i \<mapsto> c * r)) n)"
    by (rule Cons.IH [OF run d])
  show ?case
  proof (cases "n = i")
    case True
    then show ?thesis using ih fresh x by (simp add: get0_upd get0_def)
  next
    case False
    then show ?thesis using ih x by (simp add: get0_upd get0_def)
  qed
qed

lemma get0_remaining_after:
  "get0 (remaining_after pool u) n = (if pool n = None then 0 else get0 pool n - get0 u n)"
  by (simp add: remaining_after_def get0_def split: option.splits)

lemma remaining_after_nonneg:
  "(\<forall>n. get0 u n \<le> get0 pool n) \<Longrightarrow> pool_nonneg (remaining_after pool u)"
  by (simp add: pool_nonneg_def get0_remaining_after)

lemma two_loop_mono:
  "snd best \<le> snd (two_dishes_loop opt d1 d2 tl2 sw cs best)"
proof (induction cs arbitrary: best)
  case Nil
  then show ?case by simp
next
  case (Cons c cs)
  show ?case
  proof (cases "used_loop (ingredients d1) c (total_ingredients opt) Map.empty")
    case None
    then show ?thesis by simp
  next
    case (Some u)
    let ?p = "c * price d1 + inner_count opt d2 tl2 u * price d2"
    let ?b = "if ?p > snd best then (if sw then [inner_count opt d2 tl2 u, c]
                                     else [c, inner_count opt d2 tl2 u], ?p) else best"
    have step: "two_dishes_loop opt d1 d2 tl2 sw (c # cs) best =
                  two_dishes_loop opt d1 d2 tl2 sw cs ?b"
      using Some by (simp add: inner_count_def Let_def)
    have "snd best \<le> snd ?b" by simp
    also have "\<dots> \<le> snd (two_dishes_loop opt d1 d2 tl2 sw cs ?b)" by (rule Cons.IH)
    finally show ?thesis using step by simp
  qed
qed

lemma two_loop_cases:
  "two_dishes_loop opt d1 d2 tl2 sw cs best = best \<or>
   (\<exists>c \<in> set cs. \<exists>u.
      used_loop (ingredients d1) c (total_ingredients opt) Map.empty = Some u \<and>
      two_dishes_loop opt d1 d2 tl2 sw cs best =
        (if sw then [inner_count opt d2 tl2 u, c] else [c, inner_count opt d2 tl2 u],
         c * price d1 + inner_count opt d2 tl2 u * price d2) \<and>
      snd best < c * price d1 + inner_count opt d2 tl2 u * price d2)"
proof (induction cs arbitrary: best)
  case Nil
  then show ?case by simp
next
  case (Cons c cs)
  show ?case
  proof (cases "used_loop (ingredients d1) c (total_ingredients opt) Map.empty")
    case None
    then show ?thesis by simp
  next
    case (Some u)
    let ?p = "c * price d1 + inner_count opt d2 tl2 u * price d2"
    let ?cand = "(if sw then [inner_count opt d2 tl2 u, c]
                  else [c, inner_count opt d2 tl2 u], ?p)"
    let ?b = "if ?p > snd best then ?cand else best"
    have step: "two_dishes_loop opt d1 d2 tl2 sw (c # cs) best =
                  two_dishes_loop opt d1 d2 tl2 sw cs ?b"
      using Some by (simp add: inner_count_def Let_def)
    have le: "snd best \<le> snd ?b" by simp
    from Cons.IH [of ?b] show ?thesis
    proof
      assume same: "two_dishes_loop opt d1 d2 tl2 sw cs ?b = ?b"
      show ?thesis
      proof (cases "?p > snd best")
        case True
        then have "two_dishes_loop opt d1 d2 tl2 sw (c # cs) best = ?cand"
          using step same by simp
        with True Some show ?thesis by auto
      next
        case False
        then show ?thesis using step same by simp
      qed
    next
      assume "\<exists>c' \<in> set cs. \<exists>u'.
        used_loop (ingredients d1) c' (total_ingredients opt) Map.empty = Some u' \<and>
        two_dishes_loop opt d1 d2 tl2 sw cs ?b =
          (if sw then [inner_count opt d2 tl2 u', c'] else [c', inner_count opt d2 tl2 u'],
           c' * price d1 + inner_count opt d2 tl2 u' * price d2) \<and>
        snd ?b < c' * price d1 + inner_count opt d2 tl2 u' * price d2"
      then obtain c' u' where c': "c' \<in> set cs"
        and u': "used_loop (ingredients d1) c' (total_ingredients opt) Map.empty = Some u'"
        and res: "two_dishes_loop opt d1 d2 tl2 sw cs ?b =
          (if sw then [inner_count opt d2 tl2 u', c'] else [c', inner_count opt d2 tl2 u'],
           c' * price d1 + inner_count opt d2 tl2 u' * price d2)"
        and gt: "snd ?b < c' * price d1 + inner_count opt d2 tl2 u' * price d2"
        by blast
      have "snd best < c' * price d1 + inner_count opt d2 tl2 u' * price d2"
        using le gt by linarith
      with c' u' res step show ?thesis by auto
    qed
  qed
qed

lemma two_loop_reach:
  assumes "\<forall>c' \<in> set pre.
             used_loop (ingredients d1) c' (total_ingredients opt) Map.empty \<noteq> None"
    and "used_loop (ingredients d1) c (total_ingredients opt) Map.empty = Some u"
  shows "c * price d1 + inner_count opt d2 tl2 u * price d2
           \<le> snd (two_dishes_loop opt d1 d2 tl2 sw (pre @ c # post) best)"
  using assms(1)
proof (induction pre arbitrary: best)
  case Nil
  let ?p = "c * price d1 + inner_count opt d2 tl2 u * price d2"
  let ?b = "if ?p > snd best then (if sw then [inner_count opt d2 tl2 u, c]
                                   else [c, inner_count opt d2 tl2 u], ?p) else best"
  have step: "two_dishes_loop opt d1 d2 tl2 sw (c # post) best =
                two_dishes_loop opt d1 d2 tl2 sw post ?b"
    using assms(2) by (simp add: inner_count_def Let_def)
  have "?p \<le> snd ?b" by simp
  also have "\<dots> \<le> snd (two_dishes_loop opt d1 d2 tl2 sw post ?b)" by (rule two_loop_mono)
  finally show ?case using step by simp
next
  case (Cons a pre)
  from Cons.prems obtain ua where
    ua: "used_loop (ingredients d1) a (total_ingredients opt) Map.empty = Some ua"
    by auto
  from Cons.prems have rest: "\<forall>c' \<in> set pre.
      used_loop (ingredients d1) c' (total_ingredients opt) Map.empty \<noteq> None"
    by simp
  show ?case using ua Cons.IH [OF rest] by (simp add: Let_def)
qed

lemma required_cases: "required d n = 0 \<or> (n, required d n) \<in> set (ingredients d)"
  by (cases "map_of (ingredients d) n") (auto simp: required_def get0_def dest: map_of_SomeD)

lemma required_absent: "n \<notin> fst ` set (ingredients d) \<Longrightarrow> required d n = 0"
  using required_cases [of d n] by force

lemma count_time_bound:
  assumes "0 \<le> time_limit opt" "time_limit opt < 2 ^ 53"
    and "0 \<le> c" "c \<le> calc_time_limit opt d"
  shows "c * time d \<le> time_limit opt"
proof (cases "time d \<le> 0")
  case True
  then have "c = 0" using assms by (simp add: calc_time_limit_def)
  then show ?thesis using assms by simp
next
  case False
  then have "c * time d \<le> calc_time_limit opt d * time d"
    using assms(4) by (simp add: mult_right_mono)
  then show ?thesis using calc_time_limit_bound [OF assms(1,2), of d] by linarith
qed

lemma single_feasible:
  assumes "pool_nonneg pool" "c \<le> calc_ingredient_limit d pool"
    and "0 \<le> c \<or> requirements_nonneg d"
  shows "c * required d n \<le> get0 pool n"
proof -
  have p: "0 \<le> get0 pool n" using assms(1) by (simp add: pool_nonneg_def)
  from required_cases [of d n] show ?thesis
  proof
    assume "required d n = 0"
    then show ?thesis using p by simp
  next
    assume mem: "(n, required d n) \<in> set (ingredients d)"
    show ?thesis
    proof (cases "0 < required d n")
      case True
      have "c \<le> get0 pool n div required d n"
        using cil_le [OF mem True, of pool] assms(2) by linarith
      then show ?thesis using True by (rule mult_le_of_le_div [rotated])
    next
      case False
      then have r: "required d n \<le> 0" by simp
      show ?thesis
      proof (cases "required d n = 0")
        case True
        then show ?thesis using p by simp
      next
        case False
        then have "required d n < 0" using r by simp
        then have "\<not> requirements_nonneg d" using mem
          unfolding requirements_nonneg_def by force
        then have "0 \<le> c" using assms(3) by simp
        then have "c * required d n \<le> 0" using r by (simp add: mult_nonneg_nonpos)
        then show ?thesis using p by linarith
      qed
    qed
  qed
qed

lemma optimize_two_cases:
  "optimize_two_dishes opt d1 d2 = ([0, 0], 0) \<or>
   (\<exists>a b. optimize_two_dishes opt d1 d2 = ([a, b], a * price d1 + b * price d2) \<and>
          0 < a * price d1 + b * price d2 \<and>
          (pair_pick opt d1 d2 a b \<or> pair_pick opt d2 d1 b a))"
proof (cases "profit_rate d1 < profit_rate d2")
  case True
  then have eq: "optimize_two_dishes opt d1 d2 =
      two_dishes_loop opt d2 d1 (calc_time_limit opt d1) True
        [0 .. calc_time_limit opt d2] ([0, 0], 0)"
    by (simp add: optimize_two_dishes_def)
  from two_loop_cases [of opt d2 d1 "calc_time_limit opt d1" True
      "[0 .. calc_time_limit opt d2]" "([0, 0], 0)"]
  show ?thesis
  proof
    assume "two_dishes_loop opt d2 d1 (calc_time_limit opt d1) True
        [0 .. calc_time_limit opt d2] ([0, 0], 0) = ([0, 0], 0)"
    then show ?thesis using eq by simp
  next
    assume "\<exists>c \<in> set [0 .. calc_time_limit opt d2]. \<exists>u.
      used_loop (ingredients d2) c (total_ingredients opt) Map.empty = Some u \<and>
      two_dishes_loop opt d2 d1 (calc_time_limit opt d1) True
        [0 .. calc_time_limit opt d2] ([0, 0], 0) =
        (if True then [inner_count opt d1 (calc_time_limit opt d1) u, c]
         else [c, inner_count opt d1 (calc_time_limit opt d1) u],
         c * price d2 + inner_count opt d1 (calc_time_limit opt d1) u * price d1) \<and>
      snd ([0, 0], 0::int) < c * price d2 + inner_count opt d1 (calc_time_limit opt d1) u * price d1"
    then obtain c u where c: "0 \<le> c" "c \<le> calc_time_limit opt d2"
      and u: "used_loop (ingredients d2) c (total_ingredients opt) Map.empty = Some u"
      and res: "optimize_two_dishes opt d1 d2 =
        ([inner_count opt d1 (calc_time_limit opt d1) u, c],
         c * price d2 + inner_count opt d1 (calc_time_limit opt d1) u * price d1)"
      and pos: "0 < c * price d2 + inner_count opt d1 (calc_time_limit opt d1) u * price d1"
      using eq by auto
    have "pair_pick opt d2 d1 c (inner_count opt d1 (calc_time_limit opt d1) u)"
      using c u by (auto simp: pair_pick_def)
    with res pos show ?thesis by (auto simp: add.commute)
  qed
next
  case False
  then have eq: "optimize_two_dishes opt d1 d2 =
      two_dishes_loop opt d1 d2 (calc_time_limit opt d2) False
        [0 .. calc_time_limit opt d1] ([0, 0], 0)"
    by (simp add: optimize_two_dishes_def)
  from two_loop_cases [of opt d1 d2 "calc_time_limit opt d2" False
      "[0 .. calc_time_limit opt d1]" "([0, 0], 0)"]
  show ?thesis
  proof
    assume "two_dishes_loop opt d1 d2 (calc_time_limit opt d2) False
        [0 .. calc_time_limit opt d1] ([0, 0], 0) = ([0, 0], 0)"
    then show ?thesis using eq by simp
  next
    assume "\<exists>c \<in> set [0 .. calc_time_limit opt d1]. \<exists>u.
      used_loop (ingredients d1) c (total_ingredients opt) Map.empty = Some u \<and>
      two_dishes_loop opt d1 d2 (calc_time_limit opt d2) False
        [0 .. calc_time_limit opt d1] ([0, 0], 0) =
        (if False then [inner_count opt d2 (calc_time_limit opt d2) u, c]
         else [c, inner_count opt d2 (calc_time_limit opt d2) u],
         c * price d1 + inner_count opt d2 (calc_time_limit opt d2) u * price d2) \<and>
      snd ([0, 0], 0::int) < c * price d1 + inner_count opt d2 (calc_time_limit opt d2) u * price d2"
    then obtain c u where c: "0 \<le> c" "c \<le> calc_time_limit opt d1"
      and u: "used_loop (ingredients d1) c (total_ingredients opt) Map.empty = Some u"
      and res: "optimize_two_dishes opt d1 d2 =
        ([c, inner_count opt d2 (calc_time_limit opt d2) u],
         c * price d1 + inner_count opt d2 (calc_time_limit opt d2) u * price d2)"
      and pos: "0 < c * price d1 + inner_count opt d2 (calc_time_limit opt d2) u * price d2"
      using eq by auto
    have "pair_pick opt d1 d2 c (inner_count opt d2 (calc_time_limit opt d2) u)"
      using c u by (auto simp: pair_pick_def)
    with res pos show ?thesis by auto
  qed
qed

lemma used_loop_empty_le:
  assumes "pool_nonneg pool" "used_loop xs c pool Map.empty = Some u"
  shows "get0 u n \<le> get0 pool n"
proof -
  have "\<forall>n. get0 Map.empty n \<le> get0 pool n"
    using assms(1) by (simp add: pool_nonneg_def get0_empty)
  from used_loop_le [OF assms(2) this] show ?thesis .
qed

lemma used_loop_required:
  assumes "dict_keys_ok d" "used_loop (ingredients d) c pool Map.empty = Some u"
  shows "get0 u n = c * required d n"
proof (cases "n \<in> fst ` set (ingredients d)")
  case True
  then show ?thesis using used_loop_get0 [OF assms(2), of n] assms(1)
    by (simp add: dict_keys_ok_def required_def)
next
  case False
  then show ?thesis using used_loop_get0 [OF assms(2), of n] assms(1) required_absent [OF False]
    by (simp add: dict_keys_ok_def get0_empty)
qed

lemma pair_pick_inner_nonneg:
  assumes "pool_nonneg (total_ingredients opt)" "0 \<le> time_limit opt" "pair_pick opt d1 d2 c1 c2"
  shows "0 \<le> c2"
proof -
  from assms(3) obtain u where
    u: "used_loop (ingredients d1) c1 (total_ingredients opt) Map.empty = Some u"
    and c2: "c2 = inner_count opt d2 (calc_time_limit opt d2) u"
    by (auto simp: pair_pick_def)
  have "pool_nonneg (remaining_after (total_ingredients opt) u)"
    using used_loop_empty_le [OF assms(1) u] by (simp add: remaining_after_nonneg)
  then have "0 \<le> calc_ingredient_limit d2 (remaining_after (total_ingredients opt) u)"
    by (rule cil_nonneg)
  then show ?thesis using c2 calc_time_limit_nonneg [OF assms(2), of d2]
    by (simp add: inner_count_def)
qed

lemma pair_pick_feasible:
  assumes pool: "pool_nonneg (total_ingredients opt)"
    and keys: "dict_keys_ok d1"
    and pick: "pair_pick opt d1 d2 c1 c2"
    and sign: "0 \<le> c2 \<or> requirements_nonneg d2"
  shows "c1 * required d1 n + c2 * required d2 n \<le> get0 (total_ingredients opt) n"
proof -
  let ?pool = "total_ingredients opt"
  from pick obtain u where
    u: "used_loop (ingredients d1) c1 ?pool Map.empty = Some u"
    and c2: "c2 = inner_count opt d2 (calc_time_limit opt d2) u"
    by (auto simp: pair_pick_def)
  have used: "get0 u n = c1 * required d1 n" by (rule used_loop_required [OF keys u])
  have outer: "c1 * required d1 n \<le> get0 ?pool n"
    using used_loop_empty_le [OF pool u, of n] used by simp
  have rem: "pool_nonneg (remaining_after ?pool u)"
    using used_loop_empty_le [OF pool u] by (simp add: remaining_after_nonneg)
  have "c2 \<le> calc_ingredient_limit d2 (remaining_after ?pool u)"
    using c2 by (simp add: inner_count_def)
  from single_feasible [OF rem this sign, of n]
  have inner: "c2 * required d2 n \<le> get0 (remaining_after ?pool u) n" .
  show ?thesis
  proof (cases "?pool n")
    case None
    then have "get0 (remaining_after ?pool u) n = 0" by (simp add: get0_remaining_after)
    moreover have "get0 ?pool n = 0" using None by (simp add: get0_def)
    ultimately show ?thesis using inner outer by linarith
  next
    case (Some t)
    then have "get0 (remaining_after ?pool u) n = get0 ?pool n - c1 * required d1 n"
      using used by (simp add: get0_remaining_after)
    then show ?thesis using inner by linarith
  qed
qed

lemma combinations2_mem:
  "(a, b) \<in> set (combinations2 xs) \<Longrightarrow> a \<in> set xs \<and> b \<in> set xs"
  by (induction xs) auto

lemma single_phase_induct:
  assumes "P b0"
    and "\<And>d b b'. d \<in> set ds \<Longrightarrow> P b \<Longrightarrow> profit b < snd (optimize_single_dish opt d)
           \<Longrightarrow> dishes b' = [d] \<Longrightarrow> counts b' = [fst (optimize_single_dish opt d)]
           \<Longrightarrow> profit b' = snd (optimize_single_dish opt d) \<Longrightarrow> P b'"
  shows "P (single_phase opt ds b0)"
  using assms
proof (induction ds arbitrary: b0)
  case Nil
  then show ?case by simp
next
  case (Cons d ds)
  let ?b = "if snd (optimize_single_dish opt d) > profit b0
            then \<lparr> dishes = [d], counts = [fst (optimize_single_dish opt d)],
                   profit = snd (optimize_single_dish opt d),
                   total_time_hours =
                     [double_of_rat (of_int (fst (optimize_single_dish opt d) * time d) / 60)] \<rparr>
            else b0"
  have step: "single_phase opt (d # ds) b0 = single_phase opt ds ?b"
    by (simp add: case_prod_unfold Let_def)
  have head: "P ?b" using Cons.prems(1) Cons.prems(2) [of d b0] by simp
  have rest: "P b'"
    if "e \<in> set ds" "P b" "profit b < snd (optimize_single_dish opt e)"
      "dishes b' = [e]" "counts b' = [fst (optimize_single_dish opt e)]"
      "profit b' = snd (optimize_single_dish opt e)" for e b b'
    using Cons.prems(2) [of e b b'] that by simp
  have "P (single_phase opt ds ?b)" using head rest by (rule Cons.IH)
  then show ?case using step by simp
qed

lemma single_phase_mono: "profit b0 \<le> profit (single_phase opt ds b0)"
proof (induction ds arbitrary: b0)
  case Nil
  then show ?case by simp
next
  case (Cons d ds)
  let ?b = "if snd (optimize_single_dish opt d) > profit b0
            then \<lparr> dishes = [d], counts = [fst (optimize_single_dish opt d)],
                   profit = snd (optimize_single_dish opt d),
                   total_time_hours =
                     [double_of_rat (of_int (fst (optimize_single_dish opt d) * time d) / 60)] \<rparr>
            else b0"
  have step: "single_phase opt (d # ds) b0 = single_phase opt ds ?b"
    by (simp add: case_prod_unfold Let_def)
  have "profit b0 \<le> profit ?b" by simp
  also have "\<dots> \<le> profit (single_phase opt ds ?b)" by (rule Cons.IH)
  finally show ?case using step by simp
qed

lemma single_phase_ge:
  "d \<in> set ds \<Longrightarrow> snd (optimize_single_dish opt d) \<le> profit (single_phase opt ds b0)"
proof (induction ds arbitrary: b0)
  case Nil
  then show ?case by simp
next
  case (Cons e ds)
  let ?b = "if snd (optimize_single_dish opt e) > profit b0
            then \<lparr> dishes = [e], counts = [fst (optimize_single_dish opt e)],
                   profit = snd (optimize_single_dish opt e),
                   total_time_hours =
                     [double_of_rat (of_int (fst (optimize_single_dish opt e) * time e) / 60)] \<rparr>
            else b0"
  have step: "single_phase opt (e # ds) b0 = single_phase opt ds ?b"
    by (simp add: case_prod_unfold Let_def)
  show ?case
  proof (cases "d = e")
    case True
    have "snd (optimize_single_dish opt e) \<le> profit ?b" by simp
    also have "\<dots> \<le> profit (single_phase opt ds ?b)" by (rule single_phase_mono)
    finally show ?thesis using step True by simp
  next
    case False
    then have "d \<in> set ds" using Cons.prems by simp
    from Cons.IH [OF this, of ?b] show ?thesis using step by simp
  qed
qed

lemma two_phase_induct:
  assumes "P b0"
    and "\<And>d1 d2 b b'. (d1, d2) \<in> set ps \<Longrightarrow> P b
           \<Longrightarrow> profit b < snd (optimize_two_dishes opt d1 d2)
           \<Longrightarrow> dishes b' = [d1, d2] \<Longrightarrow> counts b' = fst (optimize_two_dishes opt d1 d2)
           \<Longrightarrow> profit b' = snd (optimize_two_dishes opt d1 d2) \<Longrightarrow> P b'"
  shows "P (two_phase opt ps b0)"
  using assms
proof (induction ps arbitrary: b0)
  case Nil
  then show ?case by simp
next
  case (Cons x ps)
  obtain d1 d2 where x: "x = (d1, d2)" by (cases x)
  let ?r = "optimize_two_dishes opt d1 d2"
  let ?b = "if snd ?r > profit b0
            then \<lparr> dishes = [d1, d2], counts = fst ?r, profit = snd ?r,
                   total_time_hours = [double_of_rat (of_int (fst ?r ! 0 * time d1) / 60),
                                       double_of_rat (of_int (fst ?r ! 1 * time d2) / 60)] \<rparr>
            else b0"
  have step: "two_phase opt (x # ps) b0 = two_phase opt ps ?b"
    using x by (simp add: case_prod_unfold Let_def)
  have head: "P ?b" using Cons.prems(1) Cons.prems(2) [of d1 d2 b0] x by simp
  have rest: "P b'"
    if "(e1, e2) \<in> set ps" "P b" "profit b < snd (optimize_two_dishes opt e1 e2)"
      "dishes b' = [e1, e2]" "counts b' = fst (optimize_two_dishes opt e1 e2)"
      "profit b' = snd (optimize_two_dishes opt e1 e2)" for e1 e2 b b'
    using Cons.prems(2) [of e1 e2 b b'] that by simp
  have "P (two_phase opt ps ?b)" using head rest by (rule Cons.IH)
  then show ?case using step by simp
qed

lemma two_phase_mono: "profit b0 \<le> profit (two_phase opt ps b0)"
proof (induction ps arbitrary: b0)
  case Nil
  then show ?case by simp
next
  case (Cons x ps)
  obtain d1 d2 where x: "x = (d1, d2)" by (cases x)
  let ?r = "optimize_two_dishes opt d1 d2"
  let ?b = "if snd ?r > profit b0
            then \<lparr> dishes = [d1, d2], counts = fst ?r, profit = snd ?r,
                   total_time_hours = [double_of_rat (of_int (fst ?r ! 0 * time d1) / 60),
                                       double_of_rat (of_int (fst ?r ! 1 * time d2) / 60)] \<rparr>
            else b0"
  have step: "two_phase opt (x # ps) b0 = two_phase opt ps ?b"
    using x by (simp add: case_prod_unfold Let_def)
  have "profit b0 \<le> profit ?b" by simp
  also have "\<dots> \<le> profit (two_phase opt ps ?b)" by (rule Cons.IH)
  finally show ?case using step by simp
qed

lemma two_phase_ge:
  "(d1, d2) \<in> set ps \<Longrightarrow> snd (optimize_two_dishes opt d1 d2) \<le> profit (two_phase opt ps b0)"
proof (induction ps arbitrary: b0)
  case Nil
  then show ?case by simp
next
  case (Cons x ps)
  obtain e1 e2 where x: "x = (e1, e2)" by (cases x)
  let ?r = "optimize_two_dishes opt e1 e2"
  let ?b = "if snd ?r > profit b0
            then \<lparr> dishes = [e1, e2], counts = fst ?r, profit = snd ?r,
                   total_time_hours = [double_of_rat (of_int (fst ?r ! 0 * time e1) / 60),
                                       double_of_rat (of_int (fst ?r ! 1 * time e2) / 60)] \<rparr>
            else b0"
  have step: "two_phase opt (x # ps) b0 = two_phase opt ps ?b"
    using x by (simp add: case_prod_unfold Let_def)
  show ?case
  proof (cases "(d1, d2) = x")
    case True
    then have "snd (optimize_two_dishes opt d1 d2) \<le> profit ?b" using x by simp
    also have "\<dots> \<le> profit (two_phase opt ps ?b)" by (rule two_phase_mono)
    finally show ?thesis using step by simp
  next
    case False
    then have "(d1, d2) \<in> set ps" using Cons.prems by auto
    from Cons.IH [OF this, of ?b] show ?thesis using step by simp
  qed
qed

lemma search_induct:
  assumes init: "P empty_solution"
    and single: "\<And>d b b'. d \<in> set (unlocked_dishes opt) \<Longrightarrow> P b
           \<Longrightarrow> profit b < snd (optimize_single_dish opt d)
           \<Longrightarrow> dishes b' = [d] \<Longrightarrow> counts b' = [fst (optimize_single_dish opt d)]
           \<Longrightarrow> profit b' = snd (optimize_single_dish opt d) \<Longrightarrow> P b'"
    and two: "\<And>d1 d2 b b'. d1 \<in> set (unlocked_dishes opt) \<Longrightarrow> d2 \<in> set (unlocked_dishes opt)
           \<Longrightarrow> P b \<Longrightarrow> 0 \<le> profit b
           \<Longrightarrow> (\<forall>d \<in> set (unlocked_dishes opt). snd (optimize_single_dish opt d) \<le> profit b)
           \<Longrightarrow> profit b < snd (optimize_two_dishes opt d1 d2)
           \<Longrightarrow> dishes b' = [d1, d2] \<Longrightarrow> counts b' = fst (optimize_two_dishes opt d1 d2)
           \<Longrightarrow> profit b' = snd (optimize_two_dishes opt d1 d2) \<Longrightarrow> P b'"
  shows "P (search opt)"
proof -
  let ?ds = "unlocked_dishes opt"
  let ?b1 = "single_phase opt ?ds empty_solution"
  let ?Q = "\<lambda>b. P b \<and> profit ?b1 \<le> profit b"
  have p1: "P ?b1" using init single by (rule single_phase_induct)
  have ge0: "0 \<le> profit ?b1"
    using single_phase_mono [of empty_solution opt ?ds] by (simp add: empty_solution_def)
  have ge1: "\<forall>d \<in> set ?ds. snd (optimize_single_dish opt d) \<le> profit ?b1"
    by (simp add: single_phase_ge)
  have "P (two_phase opt (combinations2 ?ds) ?b1)
          \<and> profit ?b1 \<le> profit (two_phase opt (combinations2 ?ds) ?b1)"
  proof (rule two_phase_induct
      [of "\<lambda>b. P b \<and> profit ?b1 \<le> profit b" ?b1 "combinations2 ?ds" opt])
    show "P ?b1 \<and> profit ?b1 \<le> profit ?b1" using p1 by simp
  next
    fix d1 d2 :: Dish and b b' :: BestSolution
    assume mem: "(d1, d2) \<in> set (combinations2 ?ds)"
      and q: "P b \<and> profit ?b1 \<le> profit b"
      and lt: "profit b < snd (optimize_two_dishes opt d1 d2)"
      and b': "dishes b' = [d1, d2]" "counts b' = fst (optimize_two_dishes opt d1 d2)"
        "profit b' = snd (optimize_two_dishes opt d1 d2)"
    have m: "d1 \<in> set ?ds" "d2 \<in> set ?ds" using combinations2_mem [OF mem] by simp_all
    have pb: "P b" using q by simp
    have nonneg: "0 \<le> profit b" using q ge0 by linarith
    have ge: "\<forall>d \<in> set ?ds. snd (optimize_single_dish opt d) \<le> profit b"
      using q ge1 by force
    have "P b'" by (rule two [OF m pb nonneg ge lt b'])
    then show "P b' \<and> profit ?b1 \<le> profit b'" using q lt b' by simp
  qed
  then show ?thesis using p1 by (simp add: search_def Let_def)
qed

lemma single_count_nonneg:
  assumes "pool_nonneg (total_ingredients opt)" "0 \<le> time_limit opt"
  shows "0 \<le> fst (optimize_single_dish opt d)"
  using calc_time_limit_nonneg [OF assms(2), of d] cil_nonneg [OF assms(1), of d]
  by (simp add: optimize_single_dish_def Let_def)

lemma single_count_le:
  "fst (optimize_single_dish opt d) \<le> calc_time_limit opt d"
  "fst (optimize_single_dish opt d) \<le> calc_ingredient_limit d (total_ingredients opt)"
  by (simp_all add: optimize_single_dish_def Let_def)

lemma single_profit: "snd (optimize_single_dish opt d) = fst (optimize_single_dish opt d) * price d"
  by (simp add: optimize_single_dish_def Let_def)

lemma demand_one: "demand [(d, c)] n = c * required d n"
  by (simp add: demand_def)

lemma demand_two: "demand [(d1, a), (d2, b)] n = a * required d1 n + b * required d2 n"
  by (simp add: demand_def)

lemma search_demand_le:
  assumes pool: "pool_nonneg (total_ingredients opt)"
    and keys: "\<forall>d \<in> set (unlocked_dishes opt). dict_keys_ok d"
    and sign: "0 \<le> time_limit opt \<or> (\<forall>d \<in> set (unlocked_dishes opt). requirements_nonneg d)"
  shows "length (dishes (search opt)) = length (counts (search opt)) \<and>
         (\<forall>n. demand (zip (dishes (search opt)) (counts (search opt))) n
                \<le> get0 (total_ingredients opt) n)"
proof (rule search_induct)
  show "length (dishes empty_solution) = length (counts empty_solution) \<and>
        (\<forall>n. demand (zip (dishes empty_solution) (counts empty_solution)) n
               \<le> get0 (total_ingredients opt) n)"
    using pool by (simp add: empty_solution_def demand_def pool_nonneg_def)
next
  fix d :: Dish and b b' :: BestSolution
  assume d: "d \<in> set (unlocked_dishes opt)"
    and b': "dishes b' = [d]" "counts b' = [fst (optimize_single_dish opt d)]"
  have "0 \<le> fst (optimize_single_dish opt d) \<or> requirements_nonneg d"
    using sign d single_count_nonneg [OF pool, of d] by auto
  from single_feasible [OF pool single_count_le(2) this]
  show "length (dishes b') = length (counts b') \<and>
        (\<forall>n. demand (zip (dishes b') (counts b')) n \<le> get0 (total_ingredients opt) n)"
    using b' by (simp add: demand_one)
next
  fix d1 d2 :: Dish and b b' :: BestSolution
  assume d1: "d1 \<in> set (unlocked_dishes opt)" and d2: "d2 \<in> set (unlocked_dishes opt)"
    and nonneg: "0 \<le> profit b"
    and lt: "profit b < snd (optimize_two_dishes opt d1 d2)"
    and b': "dishes b' = [d1, d2]" "counts b' = fst (optimize_two_dishes opt d1 d2)"
  from optimize_two_cases [of opt d1 d2] obtain x y where
    res: "optimize_two_dishes opt d1 d2 = ([x, y], x * price d1 + y * price d2)"
    and pick: "pair_pick opt d1 d2 x y \<or> pair_pick opt d2 d1 y x"
    using nonneg lt by auto
  have feas: "x * required d1 n + y * required d2 n \<le> get0 (total_ingredients opt) n" for n
    using pick
  proof
    assume p: "pair_pick opt d1 d2 x y"
    have "0 \<le> y \<or> requirements_nonneg d2"
      using sign d2 pair_pick_inner_nonneg [OF pool _ p] by auto
    from pair_pick_feasible [OF pool _ p this, of n] show ?thesis using keys d1 by simp
  next
    assume p: "pair_pick opt d2 d1 y x"
    have "0 \<le> x \<or> requirements_nonneg d1"
      using sign d1 pair_pick_inner_nonneg [OF pool _ p] by auto
    from pair_pick_feasible [OF pool _ p this, of n] show ?thesis using keys d2 by simp
  qed
  show "length (dishes b') = length (counts b') \<and>
        (\<forall>n. demand (zip (dishes b') (counts b')) n \<le> get0 (total_ingredients opt) n)"
    using b' res feas by (simp add: demand_two)
qed

lemma pair_pick_nonneg:
  assumes pool: "pool_nonneg (total_ingredients opt)" and T: "0 \<le> time_limit opt"
    and pick: "pair_pick opt d1 d2 c1 c2"
  shows "0 \<le> c1 \<and> 0 \<le> c2"
  using pick pair_pick_inner_nonneg [OF pool T pick] by (simp add: pair_pick_def)

lemma pair_pick_time:
  assumes pool: "pool_nonneg (total_ingredients opt)" and T: "0 \<le> time_limit opt"
    and T53: "time_limit opt < 2 ^ 53"
    and pick: "pair_pick opt d1 d2 c1 c2"
  shows "c1 * time d1 \<le> time_limit opt \<and> c2 * time d2 \<le> time_limit opt"
proof -
  have c1: "0 \<le> c1" "c1 \<le> calc_time_limit opt d1" using pick by (auto simp: pair_pick_def)
  have c2: "0 \<le> c2" by (rule pair_pick_inner_nonneg [OF pool T pick])
  have "c2 \<le> calc_time_limit opt d2" using pick by (auto simp: pair_pick_def inner_count_def)
  then show ?thesis using c1 c2 count_time_bound [OF T T53] by simp
qed

lemma search_counts_nonneg:
  assumes pool: "pool_nonneg (total_ingredients opt)" and T: "0 \<le> time_limit opt"
  shows "\<forall>(d, c) \<in> set (zip (dishes (search opt)) (counts (search opt))). 0 \<le> c"
proof (rule search_induct)
  show "\<forall>(d, c) \<in> set (zip (dishes empty_solution) (counts empty_solution)). 0 \<le> c"
    by (simp add: empty_solution_def)
next
  fix d :: Dish and b b' :: BestSolution
  assume b': "dishes b' = [d]" "counts b' = [fst (optimize_single_dish opt d)]"
  show "\<forall>(d, c) \<in> set (zip (dishes b') (counts b')). 0 \<le> c"
    using b' single_count_nonneg [OF pool T, of d] by simp
next
  fix d1 d2 :: Dish and b b' :: BestSolution
  assume nonneg: "0 \<le> profit b"
    and lt: "profit b < snd (optimize_two_dishes opt d1 d2)"
    and b': "dishes b' = [d1, d2]" "counts b' = fst (optimize_two_dishes opt d1 d2)"
  from optimize_two_cases [of opt d1 d2] obtain x y where
    res: "optimize_two_dishes opt d1 d2 = ([x, y], x * price d1 + y * price d2)"
    and pick: "pair_pick opt d1 d2 x y \<or> pair_pick opt d2 d1 y x"
    using nonneg lt by auto
  have "0 \<le> x \<and> 0 \<le> y" using pick pair_pick_nonneg [OF pool T] by blast
  then show "\<forall>(d, c) \<in> set (zip (dishes b') (counts b')). 0 \<le> c"
    using b' res by simp
qed

lemma search_time:
  assumes pool: "pool_nonneg (total_ingredients opt)" and T: "0 \<le> time_limit opt"
    and T53: "time_limit opt < 2 ^ 53"
  shows "\<forall>(d, c) \<in> set (zip (dishes (search opt)) (counts (search opt))).
           c * time d \<le> time_limit opt"
proof (rule search_induct)
  show "\<forall>(d, c) \<in> set (zip (dishes empty_solution) (counts empty_solution)).
          c * time d \<le> time_limit opt"
    by (simp add: empty_solution_def)
next
  fix d :: Dish and b b' :: BestSolution
  assume b': "dishes b' = [d]" "counts b' = [fst (optimize_single_dish opt d)]"
  show "\<forall>(d, c) \<in> set (zip (dishes b') (counts b')). c * time d \<le> time_limit opt"
    using b'
      count_time_bound [OF T T53 single_count_nonneg [OF pool T] single_count_le(1), of d]
    by simp
next
  fix d1 d2 :: Dish and b b' :: BestSolution
  assume nonneg: "0 \<le> profit b"
    and lt: "profit b < snd (optimize_two_dishes opt d1 d2)"
    and b': "dishes b' = [d1, d2]" "counts b' = fst (optimize_two_dishes opt d1 d2)"
  from optimize_two_cases [of opt d1 d2] obtain x y where
    res: "optimize_two_dishes opt d1 d2 = ([x, y], x * price d1 + y * price d2)"
    and pick: "pair_pick opt d1 d2 x y \<or> pair_pick opt d2 d1 y x"
    using nonneg lt by auto
  have "x * time d1 \<le> time_limit opt \<and> y * time d2 \<le> time_limit opt"
    using pick pair_pick_time [OF pool T T53] by blast
  then show "\<forall>(d, c) \<in> set (zip (dishes b') (counts b')). c * time d \<le> time_limit opt"
    using b' res by simp
qed

lemma search_members: "set (dishes (search opt)) \<subseteq> set (unlocked_dishes opt)"
proof (rule search_induct)
  show "set (dishes empty_solution) \<subseteq> set (unlocked_dishes opt)"
    by (simp add: empty_solution_def)
next
  fix d :: Dish and b' :: BestSolution
  assume "d \<in> set (unlocked_dishes opt)" "dishes b' = [d]"
  then show "set (dishes b') \<subseteq> set (unlocked_dishes opt)" by simp
next
  fix d1 d2 :: Dish and b' :: BestSolution
  assume "d1 \<in> set (unlocked_dishes opt)" "d2 \<in> set (unlocked_dishes opt)"
    "dishes b' = [d1, d2]"
  then show "set (dishes b') \<subseteq> set (unlocked_dishes opt)" by simp
qed

subsection \<open>The plan entries\<close>

lemma realize_loop_allocation:
  "allocation (fst (realize_loop opt alloc sols plan rem)) = allocation sols @ alloc"
proof (induction alloc arbitrary: sols plan rem)
  case Nil
  then show ?case by simp
next
  case (Cons x alloc)
  obtain d c where x: "x = (d, c)" by (cases x)
  show ?case using x Cons.IH by (simp add: case_prod_unfold Let_def allocation_def)
qed

lemma realize_allocation: "allocation (fst (realize opt alloc)) = alloc"
  using realize_loop_allocation [of opt alloc "[]" Map.empty "total_ingredients opt"]
  by (simp add: realize_def case_prod_unfold Let_def allocation_def)

lemma find_best_allocation:
  "allocation (fst (find_best_solution opt)) = zip (dishes (search opt)) (counts (search opt))"
  by (simp add: find_best_solution_def Let_def realize_allocation)

lemma demand_allocation:
  "demand (allocation sols) n = (\<Sum>s \<leftarrow> sols. count s * required (dish s) n)"
  by (simp add: demand_def allocation_def comp_def)

subsection \<open>Joint feasibility of the returned allocation\<close>

text \<open>
  With a non-negative ingredient pool and a positive horizon, the units that the
  entries of the returned allocation require of an ingredient are together at most the
  pool quantity of that ingredient (the two-dish case draws both dishes from the shared
  pool). Each entry also fits its own time budget, \<open>count * time \<le> time_limit\<close>, when
  the horizon is below \<open>2 ^ 53\<close> minutes, where the double quotient of
  \<open>calc_time_limit\<close> truncates to the exact integer quotient.
\<close>

lemma joint_feasibility:
  assumes "pool_nonneg (total_ingredients opt)"
    and "0 < time_limit opt"
    and "\<forall>d \<in> set (unlocked_dishes opt). dict_keys_ok d"
    and "find_best_solution opt = (sols, plan)"
  shows "(time_limit opt < 2 ^ 53
            \<longrightarrow> (\<forall>s \<in> set sols. count s * time (dish s) \<le> time_limit opt)) \<and>
         (\<forall>n. (\<Sum>s \<leftarrow> sols. count s * required (dish s) n)
                \<le> get0 (total_ingredients opt) n)"
proof -
  have alloc: "allocation sols = zip (dishes (search opt)) (counts (search opt))"
    using find_best_allocation [of opt] assms(4) by simp
  have T: "0 \<le> time_limit opt" using assms(2) by simp
  have time: "\<forall>s \<in> set sols. count s * time (dish s) \<le> time_limit opt"
    if T53: "time_limit opt < 2 ^ 53"
  proof -
    have "\<forall>(d, c) \<in> set (allocation sols). c * time d \<le> time_limit opt"
      using search_time [OF assms(1) T T53] alloc by simp
    then show ?thesis by (auto simp: allocation_def)
  qed
  have "\<forall>n. demand (allocation sols) n \<le> get0 (total_ingredients opt) n"
    using search_demand_le [OF assms(1) assms(3)] T alloc by simp
  then show ?thesis using time by (simp add: demand_allocation)
qed

lemma minutes_of_4: "int_of_float (float_times_int (Finite 4) 60) = Inr 240"
  by code_simp

lemma minutes_of_24: "int_of_float (float_times_int (Finite 24) 60) = Inr 1440"
  by code_simp


lemma minutes_of_minus_2: "int_of_float (float_times_int (Finite (- 2)) 60) = Inr (- 120)"
  by code_simp

lemma kitchen_built:
  "RestaurantOptimizer [dish_stew, dish_soup] [''pot'' \<mapsto> 3] [''x'', ''y'']
     [''x'' \<mapsto> 3, ''y'' \<mapsto> 2] [''x'' \<mapsto> 2] (Finite 4) 2 = Inr kitchen"
  by (auto simp: RestaurantOptimizer_def minutes_of_4 kitchen_def dish_stew_def dish_soup_def
      get0_def fun_eq_iff)

lemma kitchen_pool: "pool_nonneg (total_ingredients kitchen)"
  by (simp add: pool_nonneg_def kitchen_def get0_def)

lemma kitchen_keys: "\<forall>d \<in> set (unlocked_dishes kitchen). dict_keys_ok d"
  by (simp add: kitchen_def dict_keys_ok_def dish_stew_def dish_soup_def)

lemma kitchen_alloc: "allocation (fst (find_best_solution kitchen)) = [(dish_stew, 2), (dish_soup, 1)]"
  by code_simp

lemma joint_feasibility_kitchen:
  "pool_nonneg (total_ingredients kitchen) \<and> 0 < time_limit kitchen \<and>
   list_all dict_keys_ok (unlocked_dishes kitchen) \<and>
   list_all (\<lambda>s. count s * time (dish s) \<le> 240) (fst (find_best_solution kitchen)) \<and>
   (\<forall>n. (\<Sum>s \<leftarrow> fst (find_best_solution kitchen). count s * required (dish s) n)
          \<le> get0 (total_ingredients kitchen) n)"
proof -
  have t: "0 < time_limit kitchen" by (simp add: kitchen_def)
  have r: "find_best_solution kitchen =
             (fst (find_best_solution kitchen), snd (find_best_solution kitchen))"
    by simp
  show ?thesis
    using joint_feasibility [OF kitchen_pool t kitchen_keys r] kitchen_pool t kitchen_keys
    by (simp add: kitchen_def list_all_iff)
qed

lemma marathon_minutes:
  "int_of_float (float_times_int (Finite 1000000000000000) 60) = Inr 60000000000000000"
  by code_simp

lemma marathon_built:
  "RestaurantOptimizer [dish_snack] [''pot'' \<mapsto> 3] [''x''] [''x'' \<mapsto> 6000000000000000]
     Map.empty (Finite 1000000000000000) 2 = Inr marathon"
  by (auto simp: RestaurantOptimizer_def marathon_minutes marathon_def dish_snack_def
      get0_def fun_eq_iff)

subsection \<open>Claim C1: the time budget of an entry\<close>

text \<open>
  C1, evaluated at a horizon of \<open>10 ^ 15\<close> hours, that is 60000000000000000 minutes,
  with one dish that takes 11 minutes and a pool that holds enough of its ingredient.
  The integer quotient of the horizon by 11 is 5454545454545454, but \<open>calc_time_limit\<close>
  truncates the double quotient, which has been rounded up to 5454545454545455. The
  returned allocation has that count, and its time, 60000000000000005 minutes, exceeds
  the horizon.
\<close>

theorem C1_time_budget_exceeded:
  "run_optimizer [dish_snack] [''pot'' \<mapsto> 3] [''x''] [''x'' \<mapsto> 6000000000000000]
     Map.empty (Inr (Finite 1000000000000000)) = Inr marathon \<and>
   pool_nonneg (total_ingredients marathon) \<and>
   time_limit marathon = 60000000000000000 \<and>
   time_limit marathon div time dish_snack = 5454545454545454 \<and>
   calc_time_limit marathon dish_snack = 5454545454545455 \<and>
   calc_ingredient_limit dish_snack (total_ingredients marathon) = 6000000000000000 \<and>
   allocation (fst (find_best_solution marathon)) = [(dish_snack, 5454545454545455)] \<and>
   5454545454545455 * time dish_snack = 60000000000000005 \<and>
   time_limit marathon < 5454545454545455 * time dish_snack"
proof -
  have "run_optimizer [dish_snack] [''pot'' \<mapsto> 3] [''x''] [''x'' \<mapsto> 6000000000000000]
      Map.empty (Inr (Finite 1000000000000000)) = Inr marathon"
    by (simp add: run_optimizer_def default_slots_def marathon_built)
  moreover have "pool_nonneg (total_ingredients marathon)"
    by (simp add: pool_nonneg_def marathon_def get0_def)
  moreover have "time_limit marathon = 60000000000000000" by (simp add: marathon_def)
  moreover have "time_limit marathon div time dish_snack = 5454545454545454" by code_simp
  moreover have "calc_time_limit marathon dish_snack = 5454545454545455" by code_simp
  moreover have "calc_ingredient_limit dish_snack (total_ingredients marathon)
                   = 6000000000000000" by code_simp
  moreover have "allocation (fst (find_best_solution marathon))
                   = [(dish_snack, 5454545454545455)]" by code_simp
  moreover have "5454545454545455 * time dish_snack = 60000000000000005" by code_simp
  moreover have "time_limit marathon < 5454545454545455 * time dish_snack" by code_simp
  ultimately show ?thesis by simp
qed

lemma matching_absent:
  "n \<notin> fst ` set xs \<Longrightarrow> (\<Sum>(i, q) \<leftarrow> xs. if i = n then q * c else 0) = (0::int)"
  by (induction xs) auto

lemma matching_required:
  "distinct (map fst xs)
     \<Longrightarrow> (\<Sum>(i, q) \<leftarrow> xs. if i = n then q * c else 0) = c * get0 (map_of xs) n"
proof (induction xs)
  case Nil
  then show ?case by (simp add: get0_def)
next
  case (Cons x xs)
  obtain i q where x: "x = (i, q)" by (cases x)
  from Cons.prems x have d: "distinct (map fst xs)" and fresh: "i \<notin> fst ` set xs" by auto
  show ?case
  proof (cases "n = i")
    case True
    then show ?thesis using x fresh matching_absent [of i xs c] by (simp add: get0_def)
  next
    case False
    then show ?thesis using x Cons.IH [OF d] by (simp add: get0_def)
  qed
qed

lemma demand_loop_apply:
  "demand_loop xs c shop plan n =
     (if shop n \<noteq> None \<and> n \<in> fst ` set xs
      then Some (get0 plan n + (\<Sum>(i, q) \<leftarrow> xs. if i = n then q * c else 0))
      else plan n)"
proof (induction xs arbitrary: plan)
  case Nil
  then show ?case by simp
next
  case (Cons x xs)
  obtain i q where x: "x = (i, q)" by (cases x)
  define plan' where "plan' =
    (if shop i \<noteq> None
     then plan(i \<mapsto> (case plan i of Some v \<Rightarrow> v + q * c | None \<Rightarrow> q * c))
     else plan)"
  have step: "demand_loop (x # xs) c shop plan = demand_loop xs c shop plan'"
    using x by (simp add: plan'_def)
  have ih: "demand_loop xs c shop plan' n =
     (if shop n \<noteq> None \<and> n \<in> fst ` set xs
      then Some (get0 plan' n + (\<Sum>(i, q) \<leftarrow> xs. if i = n then q * c else 0))
      else plan' n)"
    by (rule Cons.IH)
  have head: "(\<Sum>(j, r) \<leftarrow> x # xs. if j = n then r * c else 0) =
              (if i = n then q * c else 0) + (\<Sum>(j, r) \<leftarrow> xs. if j = n then r * c else 0)"
    using x by simp
  show ?case
  proof (cases "shop n \<noteq> None \<and> n = i")
    case True
    then have si: "shop n \<noteq> None" and ni: "i = n" by auto
    have pn: "plan' n = Some (get0 plan n + q * c)"
      using si ni by (auto simp: plan'_def get0_def split: option.splits)
    then have g: "get0 plan' n = get0 plan n + q * c" by (simp add: get0_def)
    have mem: "n \<in> fst ` set (x # xs)" using ni x by simp
    have lhs: "demand_loop (x # xs) c shop plan n =
       (if n \<in> fst ` set xs
        then Some (get0 plan' n + (\<Sum>(i, q) \<leftarrow> xs. if i = n then q * c else 0))
        else plan' n)"
      unfolding step ih using si by simp
    have rhs: "(if shop n \<noteq> None \<and> n \<in> fst ` set (x # xs)
        then Some (get0 plan n + (\<Sum>(i, q) \<leftarrow> x # xs. if i = n then q * c else 0))
        else plan n) =
       Some (get0 plan n + q * c + (\<Sum>(j, r) \<leftarrow> xs. if j = n then r * c else 0))"
      unfolding head using si mem ni by simp
    show ?thesis
    proof (cases "n \<in> fst ` set xs")
      case in_rest: True
      show ?thesis unfolding lhs rhs using in_rest g by simp
    next
      case False
      show ?thesis unfolding lhs rhs
        using False pn matching_absent [OF False, of c] by simp
    qed
  next
    case False
    then have same: "plan' n = plan n" by (auto simp: plan'_def)
    then have g: "get0 plan' n = get0 plan n" by (simp add: get0_def)
    show ?thesis
    proof (cases "shop n = None")
      case True
      then show ?thesis unfolding step ih using same by simp
    next
      case shop: False
      then have ne: "i \<noteq> n" using False by auto
      have mem: "n \<in> fst ` set (x # xs) \<longleftrightarrow> n \<in> fst ` set xs" using ne x by auto
      show ?thesis unfolding step ih head mem using ne g same by simp
    qed
  qed
qed

lemma demand_loop_required:
  assumes "dict_keys_ok d"
  shows "demand_loop (ingredients d) c shop plan n =
     (if shop n \<noteq> None \<and> n \<in> fst ` set (ingredients d)
      then Some (get0 plan n + c * required d n)
      else plan n)"
  using assms matching_required [of "ingredients d" n c]
  by (simp add: demand_loop_apply dict_keys_ok_def required_def)

lemma demand_Cons: "demand ((d, c) # alloc) n = c * required d n + demand alloc n"
  by (simp add: demand_def)

lemma demand_absent: "\<not> demanded alloc n \<Longrightarrow> demand alloc n = 0"
proof (induction alloc)
  case Nil
  then show ?case by (simp add: demand_def)
next
  case (Cons x alloc)
  obtain d c where x: "x = (d, c)" by (cases x)
  from Cons.prems x have a: "n \<notin> fst ` set (ingredients d)" and r: "\<not> demanded alloc n"
    by (simp_all add: demanded_def)
  show ?case using x Cons.IH [OF r] required_absent [OF a] by (simp add: demand_Cons)
qed

lemma realize_loop_plan:
  assumes "list_all (\<lambda>(d, c). dict_keys_ok d) alloc"
  shows "snd (realize_loop opt alloc sols plan rem) n =
     (if purchasable_ingredients opt n \<noteq> None \<and> demanded alloc n
      then Some (get0 plan n + demand alloc n)
      else plan n)"
  using assms
proof (induction alloc arbitrary: sols plan rem)
  case Nil
  then show ?case by (simp add: demanded_def)
next
  case (Cons x alloc)
  obtain d c where x: "x = (d, c)" by (cases x)
  from Cons.prems x have k: "dict_keys_ok d"
    and ks: "list_all (\<lambda>(d, c). dict_keys_ok d) alloc" by simp_all
  let ?shop = "purchasable_ingredients opt"
  let ?plan = "demand_loop (ingredients d) c ?shop plan"
  have step: "snd (realize_loop opt (x # alloc) sols plan rem) n =
     (if ?shop n \<noteq> None \<and> demanded alloc n
      then Some (get0 ?plan n + demand alloc n) else ?plan n)"
    using x Cons.IH [OF ks] by (simp add: case_prod_unfold Let_def)
  have pl: "?plan n = (if ?shop n \<noteq> None \<and> n \<in> fst ` set (ingredients d)
      then Some (get0 plan n + c * required d n) else plan n)"
    by (rule demand_loop_required [OF k])
  have dm: "demanded (x # alloc) n \<longleftrightarrow> n \<in> fst ` set (ingredients d) \<or> demanded alloc n"
    using x by (simp add: demanded_def)
  show ?case
  proof (cases "?shop n \<noteq> None")
    case False
    then show ?thesis using step pl by simp
  next
    case shop: True
    show ?thesis
    proof (cases "n \<in> fst ` set (ingredients d)")
      case True
      then have g: "get0 ?plan n = get0 plan n + c * required d n"
        using pl shop by (simp add: get0_def)
      show ?thesis
      proof (cases "demanded alloc n")
        case True
        then show ?thesis using step g shop dm x by (simp add: demand_Cons)
      next
        case False
        then show ?thesis using step pl shop dm x True demand_absent [OF False]
          by (simp add: demand_Cons)
      qed
    next
      case False
      then have "?plan n = plan n" using pl by simp
      then have g: "get0 ?plan n = get0 plan n" by (simp add: get0_def)
      show ?thesis using step g \<open>?plan n = plan n\<close> shop dm x False required_absent [OF False]
        by (simp add: demand_Cons)
    qed
  qed
qed

lemma realize_plan:
  assumes "list_all (\<lambda>(d, c). dict_keys_ok d) alloc"
  shows "snd (realize opt alloc) n =
     (if purchasable_ingredients opt n \<noteq> None \<and> demanded alloc n
      then Some (max 0 (demand alloc n - get0 (warehouse_storage opt) n))
      else None)"
  using realize_loop_plan [OF assms, of opt "[]" Map.empty "total_ingredients opt" n]
  by (simp add: realize_def case_prod_unfold Let_def rectify_def get0_empty max_def)

lemma stocked_plan: "snd (find_best_solution stocked) ''x'' = Some 0"
  by code_simp

lemma stocked_alloc: "allocation (fst (find_best_solution stocked)) = [(dish_broth, 2)]"
  by code_simp

lemma kitchen_plan: "snd (find_best_solution kitchen) ''x'' = Some 2"
  by code_simp

lemma search_keys:
  assumes "\<forall>d \<in> set (unlocked_dishes opt). dict_keys_ok d"
  shows "list_all (\<lambda>(d, c). dict_keys_ok d)
           (zip (dishes (search opt)) (counts (search opt)))"
proof -
  have "\<forall>x \<in> set (zip (dishes (search opt)) (counts (search opt))). dict_keys_ok (fst x)"
    using assms search_members [of opt] by (auto dest: set_zip_leftD)
  then show ?thesis by (simp add: list_all_iff case_prod_unfold)
qed

lemma find_best_plan:
  assumes "\<forall>d \<in> set (unlocked_dishes opt). dict_keys_ok d"
  shows "snd (find_best_solution opt) n =
     (if purchasable_ingredients opt n \<noteq> None
         \<and> demanded (allocation (fst (find_best_solution opt))) n
      then Some (max 0 (demand (allocation (fst (find_best_solution opt))) n
                        - get0 (warehouse_storage opt) n))
      else None)"
  unfolding find_best_allocation
  using realize_plan [OF search_keys [OF assms], of opt n]
  by (simp add: find_best_solution_def Let_def)

subsection \<open>Claim C7: the purchase plan\<close>

text \<open>
  C7. For every allocation, the purchase plan has an entry exactly for the ingredients
  that are keys of the shop dictionary and are required by a dish of the allocation;
  the entry is \<open>max 0 (total demand - warehouse quantity)\<close>, the demand being summed
  over the whole allocation. Every value is therefore \<open>\<ge> 0\<close>, and an ingredient that
  the shop does not sell gets no entry, however short it is. \<open>find_best_solution\<close>
  applies this to the allocation that the search has chosen.
\<close>

theorem C7_purchase_plan:
  assumes "list_all (\<lambda>(d, c). dict_keys_ok d) alloc"
  shows "snd (realize opt alloc) n =
           (if purchasable_ingredients opt n \<noteq> None \<and> demanded alloc n
            then Some (max 0 (demand alloc n - get0 (warehouse_storage opt) n))
            else None)
         \<and> (\<forall>v. snd (realize opt alloc) n = Some v \<longrightarrow> 0 \<le> v)
         \<and> (purchasable_ingredients opt n = None \<longrightarrow> snd (realize opt alloc) n = None)
         \<and> find_best_solution opt =
             realize opt (zip (dishes (search opt)) (counts (search opt)))"
  using realize_plan [OF assms, of opt n]
  by (auto simp: find_best_solution_def Let_def)

theorem C7_purchase_plan_witness:
  "list_all (\<lambda>(d, c). dict_keys_ok d) [(dish_stew, 2), (dish_soup, 1)] \<and>
   snd (realize kitchen [(dish_stew, 2), (dish_soup, 1)]) ''x'' = Some 2 \<and>
   snd (realize kitchen [(dish_stew, 2), (dish_soup, 1)]) ''y'' = None"
proof -
  have k: "list_all (\<lambda>(d, c). dict_keys_ok d) [(dish_stew, 2), (dish_soup, 1)]"
    by (simp add: dict_keys_ok_def dish_stew_def dish_soup_def)
  have x: "demanded [(dish_stew, 2), (dish_soup, 1)] ''x''"
    by (simp add: demanded_def dish_stew_def dish_soup_def)
  have dx: "demand [(dish_stew, 2), (dish_soup, 1)] ''x'' = 5"
    by (simp add: demand_def required_def get0_def dish_stew_def dish_soup_def)
  show ?thesis
    using k x dx C7_purchase_plan [OF k, of kitchen "''x''"]
      C7_purchase_plan [OF k, of kitchen "''y''"]
    by (simp add: kitchen_def get0_def)
qed

subsection \<open>Claim C6: entries of the purchase plan\<close>

text \<open>
  C6 as stated (every key of the returned purchase plan has a value strictly greater
  than 0) fails: with 5 units in the warehouse, a shop that sells the ingredient and an
  allocation that needs 2 units, the plan keeps the ingredient with the value 0.
\<close>

theorem C6_zero_entry_counterexample:
  "snd (find_best_solution stocked) ''x'' = Some 0"
  by code_simp

text \<open>
  C6, amended. The keys of the purchase plan returned by \<open>find_best_solution\<close> are
  exactly the ingredients that the shop sells and that a dish of the returned
  allocation requires. The value of a key is \<open>max 0 (demand - warehouse quantity)\<close>,
  hence \<open>\<ge> 0\<close>; it is strictly positive exactly when the demand of the allocation
  exceeds the warehouse quantity, and a demanded shop ingredient with no shortfall
  stays in the plan with the value 0.
\<close>

theorem C6_plan_values:
  assumes "\<forall>d \<in> set (unlocked_dishes opt). dict_keys_ok d"
  shows "(snd (find_best_solution opt) n \<noteq> None \<longleftrightarrow>
            purchasable_ingredients opt n \<noteq> None
            \<and> demanded (allocation (fst (find_best_solution opt))) n)
         \<and> (\<forall>v. snd (find_best_solution opt) n = Some v \<longrightarrow>
               0 \<le> v
               \<and> v = max 0 (demand (allocation (fst (find_best_solution opt))) n
                            - get0 (warehouse_storage opt) n)
               \<and> (0 < v \<longleftrightarrow> get0 (warehouse_storage opt) n
                             < demand (allocation (fst (find_best_solution opt))) n))
         \<and> (purchasable_ingredients opt n \<noteq> None
              \<and> demanded (allocation (fst (find_best_solution opt))) n
              \<and> demand (allocation (fst (find_best_solution opt))) n
                   \<le> get0 (warehouse_storage opt) n
              \<longrightarrow> snd (find_best_solution opt) n = Some 0)"
  using find_best_plan [OF assms, of n]
  by (auto split: if_splits)

theorem C6_plan_values_witness:
  "list_all dict_keys_ok (unlocked_dishes stocked) \<and>
   purchasable_ingredients stocked ''x'' \<noteq> None \<and>
   demanded (allocation (fst (find_best_solution stocked))) ''x'' \<and>
   demand (allocation (fst (find_best_solution stocked))) ''x'' = 2 \<and>
   get0 (warehouse_storage stocked) ''x'' = 5 \<and>
   snd (find_best_solution stocked) ''x'' = Some 0 \<and>
   snd (find_best_solution stocked) ''y'' = None"
proof -
  have k: "\<forall>d \<in> set (unlocked_dishes stocked). dict_keys_ok d"
    by (simp add: stocked_def dict_keys_ok_def dish_broth_def)
  have p: "purchasable_ingredients stocked ''x'' \<noteq> None"
    "purchasable_ingredients stocked ''y'' = None"
    "get0 (warehouse_storage stocked) ''x'' = 5"
    by (simp_all add: stocked_def get0_def)
  have d: "demanded [(dish_broth, 2)] ''x''"
    "demand [(dish_broth, 2)] ''x'' = 2"
    by (simp_all add: demanded_def demand_def required_def get0_def dish_broth_def)
  show ?thesis
    using C6_plan_values [OF k, of "''x''"] C6_plan_values [OF k, of "''y''"] k p d
    by (simp add: stocked_alloc list_all_iff)
qed

lemma constructor_fields:
  assumes "RestaurantOptimizer loaded levels names warehouse shop hours slots = Inr opt"
  shows "int_of_float (float_times_int hours 60) = Inr (time_limit opt)"
    and "max_slots opt = slots"
    and "warehouse_storage opt = warehouse"
    and "purchasable_ingredients opt = shop"
    and "set (unlocked_dishes opt) \<subseteq> set loaded"
    and "get0 (total_ingredients opt) n =
           (if n \<in> set names then get0 warehouse n + get0 shop n else 0)"
  using assms by (auto simp: RestaurantOptimizer_def get0_def split: if_splits sum.splits)

subsection \<open>Claim C10: the plan stays within the shop's quantities\<close>

text \<open>
  C10. For an optimizer built from non-negative warehouse and shop dictionaries and
  dishes with non-negative requirements, every value of the returned purchase plan is at
  most the quantity the shop dictionary records for that ingredient.
\<close>

theorem C10_plan_within_shop:
  assumes built: "RestaurantOptimizer loaded levels names warehouse shop hours slots = Inr opt"
    and w: "pool_nonneg warehouse" and s: "pool_nonneg shop"
    and reqs: "\<forall>d \<in> set loaded. requirements_nonneg d"
    and keys: "\<forall>d \<in> set loaded. dict_keys_ok d"
    and plan: "snd (find_best_solution opt) n = Some v"
  shows "v \<le> get0 shop n"
proof -
  note f = constructor_fields [OF built]
  have total: "get0 (total_ingredients opt) m =
      (if m \<in> set names then get0 warehouse m + get0 shop m else 0)" for m
    by (rule f(6))
  have pool: "pool_nonneg (total_ingredients opt)"
    using w s by (simp add: pool_nonneg_def total)
  have k: "\<forall>d \<in> set (unlocked_dishes opt). dict_keys_ok d" using keys f(5) by auto
  have r: "\<forall>d \<in> set (unlocked_dishes opt). requirements_nonneg d" using reqs f(5) by auto
  let ?alloc = "allocation (fst (find_best_solution opt))"
  have "demand ?alloc n \<le> get0 (total_ingredients opt) n"
    unfolding find_best_allocation using search_demand_le [OF pool k] r by simp
  then have d: "demand ?alloc n \<le> (if n \<in> set names then get0 warehouse n + get0 shop n else 0)"
    by (simp add: total)
  have v: "v = max 0 (demand ?alloc n - get0 warehouse n)"
    using plan find_best_plan [OF k, of n] f(3) by (auto split: if_splits)
  have "0 \<le> get0 shop n" "0 \<le> get0 warehouse n"
    using w s by (simp_all add: pool_nonneg_def)
  then show ?thesis using d v by (auto split: if_splits)
qed

theorem C10_plan_within_shop_witness:
  "pool_nonneg [''x'' \<mapsto> 3, ''y'' \<mapsto> 2] \<and> pool_nonneg [''x'' \<mapsto> 2] \<and>
   list_all requirements_nonneg [dish_stew, dish_soup] \<and>
   list_all dict_keys_ok [dish_stew, dish_soup] \<and>
   snd (find_best_solution kitchen) ''x'' = Some 2 \<and>
   (2::int) \<le> get0 [''x'' \<mapsto> 2] ''x''"
proof -
  have w: "pool_nonneg [''x'' \<mapsto> 3, ''y'' \<mapsto> (2::int)]"
    by (simp add: pool_nonneg_def get0_def)
  have s: "pool_nonneg [''x'' \<mapsto> (2::int)]" by (simp add: pool_nonneg_def get0_def)
  have r: "\<forall>d \<in> set [dish_stew, dish_soup]. requirements_nonneg d"
    by (simp add: requirements_nonneg_def dish_stew_def dish_soup_def)
  have k: "\<forall>d \<in> set [dish_stew, dish_soup]. dict_keys_ok d"
    by (simp add: dict_keys_ok_def dish_stew_def dish_soup_def)
  show ?thesis
    using C10_plan_within_shop [OF kitchen_built w s r k kitchen_plan] w s r k kitchen_plan
    by (simp add: list_all_iff)
qed

lemma buffet_built:
  "RestaurantOptimizer [dish_free, dish_broth] [''pot'' \<mapsto> 3] [''x'']
     [''x'' \<mapsto> 3] Map.empty (Finite 24) 2 = Inr buffet"
  by (auto simp: RestaurantOptimizer_def minutes_of_24 buffet_def dish_free_def dish_broth_def
      get0_def fun_eq_iff)

subsection \<open>Claim C5: the horizon that the caller supplies\<close>





lemma constructor_finite:
  assumes "RestaurantOptimizer loaded levels names warehouse shop (Finite hours) slots = Inr opt"
  shows "\<not> double_overflows (double_of_rat (hours * 60))"
    and "time_limit opt = py_int (double_of_rat (hours * 60))"
  using assms
  by (auto simp: RestaurantOptimizer_def int_of_float_def float_times_int_def Let_def
      split: if_splits)









subsection \<open>The range of the stored time limit\<close>

text \<open>
  The time limit that the constructor stores is the truncation of a finite double, so
  its quotient by the time of a dish, rounded to a double, never overflows: the true
  division of \<open>calc_time_limit\<close> cannot raise on an optimizer that the constructor
  has built.
\<close>

lemma constructor_time_limit_range:
  assumes "RestaurantOptimizer loaded levels names warehouse shop hours slots = Inr opt"
    and "0 < time d"
  shows "\<not> double_overflows (double_of_rat (of_int (time_limit opt) / of_int (time d)))"
proof -
  from assms(1) obtain h where h: "hours = Finite h"
    by (cases hours)
      (auto simp: RestaurantOptimizer_def int_of_float_def float_times_int_def)
  note f = constructor_finite [OF assms(1) [unfolded h]]
  have "\<bar>(of_int (time_limit opt) / of_int (time d) :: rat)\<bar> \<le> \<bar>of_int (time_limit opt)\<bar>"
    by (rule quotient_abs_le [OF assms(2)])
  also have "\<dots> \<le> \<bar>double_of_rat (h * 60)\<bar>" unfolding f(2) by (rule py_int_abs_le)
  also have "\<dots> \<le> 2 powi 1024 - 2 powi 971" by (rule finite_double_abs_le [OF f(1)])
  finally show ?thesis by (rule abs_le_max_finite)
qed

subsection \<open>Claim C8: a dish without requirements\<close>

text \<open>
  C8, evaluated on a catalog whose first dish has no ingredient requirement. Its
  ingredient limit is 0 and the single-dish search gives it the count 0, as the claim
  says; but the two-dish search enumerates it in the outer loop, where only the time
  limit and the (empty) feasibility check bound its count, and allocates it 24 units.
\<close>

theorem C8_degenerate_outer_dish:
  "ingredients dish_free = [] \<and>
   calc_ingredient_limit dish_free (total_ingredients buffet) = 0 \<and>
   optimize_single_dish buffet dish_free = (0, 0) \<and>
   optimize_two_dishes buffet dish_free dish_broth = ([24, 3], 510) \<and>
   allocation (fst (find_best_solution buffet)) = [(dish_free, 24), (dish_broth, 3)]"
  by code_simp

lemma outer_dish_rate:
  "\<exists>outer inner sw.
     ((outer = d1 \<and> inner = d2) \<or> (outer = d2 \<and> inner = d1)) \<and>
     profit_rate inner \<le> profit_rate outer \<and>
     optimize_two_dishes opt d1 d2 =
       two_dishes_loop opt outer inner (calc_time_limit opt inner) sw
         [0 .. calc_time_limit opt outer] ([0, 0], 0)"
proof (cases "profit_rate d1 < profit_rate d2")
  case True
  then have "profit_rate d1 \<le> profit_rate d2 \<and>
     optimize_two_dishes opt d1 d2 =
       two_dishes_loop opt d2 d1 (calc_time_limit opt d1) True
         [0 .. calc_time_limit opt d2] ([0, 0], 0)"
    by (simp add: optimize_two_dishes_def)
  then show ?thesis by blast
next
  case False
  then have "profit_rate d2 \<le> profit_rate d1 \<and>
     optimize_two_dishes opt d1 d2 =
       two_dishes_loop opt d1 d2 (calc_time_limit opt d2) False
         [0 .. calc_time_limit opt d1] ([0, 0], 0)"
    by (simp add: optimize_two_dishes_def)
  then show ?thesis by blast
qed

subsection \<open>Claim C4: the orientation of a pair\<close>

text \<open>
  C4, evaluated on the same catalog. In either order of the arguments the outer loop of
  \<open>optimize_two_dishes\<close> runs over the dish with the higher profit rate, not the lower
  one; and the orientation matters here: the loop as the code orients it returns the
  profit 510, the loop with the lower profit rate outside returns 30.
\<close>

theorem C4_outer_loop_orientation:
  "profit_rate dish_broth < profit_rate dish_free \<and>
   optimize_two_dishes buffet dish_free dish_broth =
     two_dishes_loop buffet dish_free dish_broth (calc_time_limit buffet dish_broth) False
       [0 .. calc_time_limit buffet dish_free] ([0, 0], 0) \<and>
   optimize_two_dishes buffet dish_broth dish_free =
     two_dishes_loop buffet dish_free dish_broth (calc_time_limit buffet dish_broth) True
       [0 .. calc_time_limit buffet dish_free] ([0, 0], 0) \<and>
   snd (two_dishes_loop buffet dish_free dish_broth (calc_time_limit buffet dish_broth) False
          [0 .. calc_time_limit buffet dish_free] ([0, 0], 0)) = 510 \<and>
   snd (two_dishes_loop buffet dish_broth dish_free (calc_time_limit buffet dish_free) True
          [0 .. calc_time_limit buffet dish_broth] ([0, 0], 0)) = 30"
  by code_simp

lemma combinations2_partner:
  assumes "d \<in> set xs" "2 \<le> length xs"
  shows "\<exists>e. (d, e) \<in> set (combinations2 xs) \<or> (e, d) \<in> set (combinations2 xs)"
proof (cases xs)
  case Nil
  then show ?thesis using assms by simp
next
  case (Cons x rest)
  show ?thesis
  proof (cases "d = x")
    case True
    from assms(2) Cons obtain e where "e \<in> set rest" by (cases rest) auto
    then have "(d, e) \<in> set (combinations2 xs)" using Cons True by auto
    then show ?thesis by blast
  next
    case False
    then have "d \<in> set rest" using assms(1) Cons by simp
    then have "(x, d) \<in> set (combinations2 xs)" using Cons by auto
    then show ?thesis by blast
  qed
qed

lemma outer_feasible:
  assumes pool: "pool_nonneg pool" and c: "0 \<le> c" "c \<le> calc_ingredient_limit d pool"
  shows "used_loop (ingredients d) c pool Map.empty \<noteq> None"
  unfolding used_loop_Some_iff
proof (intro ballI, clarify)
  fix n r assume mem: "(n, r) \<in> set (ingredients d)"
  have p: "0 \<le> get0 pool n" using pool by (simp add: pool_nonneg_def)
  show "c * r \<le> get0 pool n"
  proof (cases "0 < r")
    case True
    have "c \<le> get0 pool n div r" using cil_le [OF mem True, of pool] c(2) by linarith
    then show ?thesis using True by (rule mult_le_of_le_div [rotated])
  next
    case False
    then have "c * r \<le> 0" using c(1) by (simp add: mult_nonneg_nonpos)
    then show ?thesis using p by linarith
  qed
qed

lemma inner_count_nonneg:
  assumes pool: "pool_nonneg (total_ingredients opt)" and tl: "0 \<le> tl2"
    and u: "used_loop xs c (total_ingredients opt) Map.empty = Some u"
  shows "0 \<le> inner_count opt d2 tl2 u"
proof -
  have "pool_nonneg (remaining_after (total_ingredients opt) u)"
    using used_loop_empty_le [OF pool u] by (simp add: remaining_after_nonneg)
  then have "0 \<le> calc_ingredient_limit d2 (remaining_after (total_ingredients opt) u)"
    by (rule cil_nonneg)
  then show ?thesis using tl by (simp add: inner_count_def)
qed

lemma inner_count_at_zero:
  assumes u: "used_loop xs 0 (total_ingredients opt) Map.empty = Some u"
  shows "inner_count opt d (calc_time_limit opt d) u = fst (optimize_single_dish opt d)"
proof -
  have z: "get0 u n = 0" for n
    using used_loop_zero [OF u] by (simp add: get0_empty)
  have "\<forall>n. get0 (remaining_after (total_ingredients opt) u) n
              = get0 (total_ingredients opt) n"
    unfolding get0_remaining_after z by (simp add: get0_def)
  from cil_cong [OF this, of d] show ?thesis
    by (simp add: inner_count_def optimize_single_dish_def Let_def)
qed

lemma zero_feasible:
  assumes "pool_nonneg pool"
  shows "used_loop xs 0 pool Map.empty \<noteq> None"
  unfolding used_loop_Some_iff using assms by (auto simp: pool_nonneg_def)

lemma loop_outer_ge:
  assumes pool: "pool_nonneg (total_ingredients opt)"
    and pos: "0 < fst (optimize_single_dish opt d)"
    and price: "0 \<le> price e"
  shows "snd (optimize_single_dish opt d)
           \<le> snd (two_dishes_loop opt d e (calc_time_limit opt e) sw
                    [0 .. calc_time_limit opt d] best)"
proof -
  let ?sc = "fst (optimize_single_dish opt d)"
  let ?pool = "total_ingredients opt"
  have sc: "?sc \<le> calc_time_limit opt d" "?sc \<le> calc_ingredient_limit d ?pool"
    by (rule single_count_le)+
  have T: "0 \<le> time_limit opt"
    using calc_time_limit_pos [of opt d] pos sc(1) by linarith
  have split: "[0 .. calc_time_limit opt d] = [0 .. ?sc - 1] @ ?sc # [?sc + 1 .. calc_time_limit opt d]"
    using pos sc(1) by (intro upto_split3) simp_all
  have pre: "\<forall>c' \<in> set [0 .. ?sc - 1]. used_loop (ingredients d) c' ?pool Map.empty \<noteq> None"
  proof
    fix c' assume "c' \<in> set [0 .. ?sc - 1]"
    then have "0 \<le> c'" "c' \<le> calc_ingredient_limit d ?pool" using sc(2) by auto
    then show "used_loop (ingredients d) c' ?pool Map.empty \<noteq> None"
      by (rule outer_feasible [OF pool])
  qed
  have "used_loop (ingredients d) ?sc ?pool Map.empty \<noteq> None"
    using pos sc(2) by (intro outer_feasible [OF pool]) simp_all
  then obtain u where u: "used_loop (ingredients d) ?sc ?pool Map.empty = Some u" by auto
  have "0 \<le> inner_count opt e (calc_time_limit opt e) u"
    by (rule inner_count_nonneg [OF pool calc_time_limit_nonneg [OF T] u])
  then have "0 \<le> inner_count opt e (calc_time_limit opt e) u * price e"
    using price by simp
  then have "snd (optimize_single_dish opt d)
      \<le> ?sc * price d + inner_count opt e (calc_time_limit opt e) u * price e"
    by (simp add: single_profit)
  also have "\<dots> \<le> snd (two_dishes_loop opt d e (calc_time_limit opt e) sw
                    ([0 .. ?sc - 1] @ ?sc # [?sc + 1 .. calc_time_limit opt d]) best)"
    by (rule two_loop_reach [OF pre u])
  finally show ?thesis using split by simp
qed

lemma loop_inner_ge:
  assumes pool: "pool_nonneg (total_ingredients opt)" and T: "0 \<le> time_limit opt"
  shows "snd (optimize_single_dish opt d)
           \<le> snd (two_dishes_loop opt e d (calc_time_limit opt d) sw
                    [0 .. calc_time_limit opt e] best)"
proof -
  let ?pool = "total_ingredients opt"
  have split: "[0 .. calc_time_limit opt e] = [] @ 0 # [1 .. calc_time_limit opt e]"
    using calc_time_limit_nonneg [OF T, of e] by (simp add: upto_rec1)
  obtain u where u: "used_loop (ingredients e) 0 ?pool Map.empty = Some u"
    using zero_feasible [OF pool, of "ingredients e"] by auto
  have "snd (optimize_single_dish opt d)
      = 0 * price e + inner_count opt d (calc_time_limit opt d) u * price d"
    by (simp add: inner_count_at_zero [OF u] single_profit)
  also have "\<dots> \<le> snd (two_dishes_loop opt e d (calc_time_limit opt d) sw
                    ([] @ 0 # [1 .. calc_time_limit opt e]) best)"
    by (rule two_loop_reach [OF _ u]) simp
  finally show ?thesis using split by simp
qed

lemma two_ge_single:
  assumes pool: "pool_nonneg (total_ingredients opt)"
    and prices: "0 \<le> price d" "0 \<le> price e"
  shows "snd (optimize_single_dish opt d) \<le> snd (optimize_two_dishes opt d e)"
    and "snd (optimize_single_dish opt d) \<le> snd (optimize_two_dishes opt e d)"
proof -
  have nonneg: "0 \<le> snd (optimize_two_dishes opt a b)" for a b
    using two_loop_mono [of "([0, 0], 0)" opt] by (simp add: optimize_two_dishes_def)
  show "snd (optimize_single_dish opt d) \<le> snd (optimize_two_dishes opt d e)"
  proof (cases "0 < snd (optimize_single_dish opt d)")
    case False
    then show ?thesis using nonneg [of d e] by linarith
  next
    case True
    then have pos: "0 < fst (optimize_single_dish opt d)"
      using prices(1) by (simp add: single_profit zero_less_mult_iff)
    have T: "0 \<le> time_limit opt"
      using calc_time_limit_pos [of opt d] pos single_count_le(1) [of opt d] by linarith
    show ?thesis
      using loop_outer_ge [OF pool pos prices(2)] loop_inner_ge [OF pool T]
      by (simp add: optimize_two_dishes_def)
  qed
  show "snd (optimize_single_dish opt d) \<le> snd (optimize_two_dishes opt e d)"
  proof (cases "0 < snd (optimize_single_dish opt d)")
    case False
    then show ?thesis using nonneg [of e d] by linarith
  next
    case True
    then have pos: "0 < fst (optimize_single_dish opt d)"
      using prices(1) by (simp add: single_profit zero_less_mult_iff)
    have T: "0 \<le> time_limit opt"
      using calc_time_limit_pos [of opt d] pos single_count_le(1) [of opt d] by linarith
    show ?thesis
      using loop_outer_ge [OF pool pos prices(2)] loop_inner_ge [OF pool T]
      by (simp add: optimize_two_dishes_def)
  qed
qed

lemma single_best_cases:
  "profit (single_phase opt ds empty_solution) = 0 \<or>
   (\<exists>d \<in> set ds. profit (single_phase opt ds empty_solution) = snd (optimize_single_dish opt d))"
proof (rule single_phase_induct
    [of "\<lambda>b. profit b = 0 \<or> (\<exists>d \<in> set ds. profit b = snd (optimize_single_dish opt d))"])
  show "profit empty_solution = 0 \<or>
        (\<exists>d \<in> set ds. profit empty_solution = snd (optimize_single_dish opt d))"
    by (simp add: empty_solution_def)
next
  fix d :: Dish and b' :: BestSolution
  assume "d \<in> set ds" "profit b' = snd (optimize_single_dish opt d)"
  then show "profit b' = 0 \<or> (\<exists>d \<in> set ds. profit b' = snd (optimize_single_dish opt d))"
    by blast
qed

lemma search_profit_ge_single:
  "profit (single_phase opt (unlocked_dishes opt) empty_solution) \<le> profit (search opt)"
  using two_phase_mono [of "single_phase opt (unlocked_dishes opt) empty_solution" opt
      "combinations2 (unlocked_dishes opt)"]
  by (simp add: search_def Let_def)

subsection \<open>Claim C2: the two-dish search against the single-dish search\<close>

text \<open>
  C2 as stated (for every catalog the best profit of the two-dish search is at least the
  best single-dish profit) fails on a catalog with one dish: there is no pair to search,
  so the two-dish loop finds nothing, while the single dish earns 20.
\<close>

theorem C2_single_dish_catalog_counterexample:
  "single_item_best_profit stocked = 20 \<and> two_item_best_profit stocked = 0"
  by code_simp

text \<open>
  C2, amended. For a catalog with at least two produceable dishes, non-negative prices
  and a non-negative pool, the best profit found by the two-dish search is at least the
  best single-dish profit: the best single dish occurs in some pair, and the loop of
  that pair reaches its single-dish count, either as the outer count (before the loop
  can break) or as the inner count at the outer count 0.
\<close>

theorem C2_two_item_search_dominates:
  assumes "2 \<le> length (unlocked_dishes opt)"
    and "pool_nonneg (total_ingredients opt)"
    and "\<forall>d \<in> set (unlocked_dishes opt). 0 \<le> price d"
  shows "single_item_best_profit opt \<le> two_item_best_profit opt"
proof -
  let ?ds = "unlocked_dishes opt"
  have two0: "0 \<le> two_item_best_profit opt"
    using two_phase_mono [of empty_solution opt "combinations2 ?ds"]
    by (simp add: two_item_best_profit_def empty_solution_def)
  from single_best_cases [of opt ?ds] show ?thesis
  proof
    assume "profit (single_phase opt ?ds empty_solution) = 0"
    then show ?thesis using two0 by (simp add: single_item_best_profit_def)
  next
    assume "\<exists>d \<in> set ?ds.
      profit (single_phase opt ?ds empty_solution) = snd (optimize_single_dish opt d)"
    then obtain d where d: "d \<in> set ?ds"
      and eq: "single_item_best_profit opt = snd (optimize_single_dish opt d)"
      by (auto simp: single_item_best_profit_def)
    from combinations2_partner [OF d assms(1)] obtain e where
      pair: "(d, e) \<in> set (combinations2 ?ds) \<or> (e, d) \<in> set (combinations2 ?ds)" by blast
    then have e: "e \<in> set ?ds" by (auto dest: combinations2_mem)
    have p: "0 \<le> price d" "0 \<le> price e" using assms(3) d e by simp_all
    from pair show ?thesis
    proof
      assume m: "(d, e) \<in> set (combinations2 ?ds)"
      have "snd (optimize_single_dish opt d) \<le> snd (optimize_two_dishes opt d e)"
        by (rule two_ge_single(1) [OF assms(2) p])
      also have "\<dots> \<le> two_item_best_profit opt"
        unfolding two_item_best_profit_def by (rule two_phase_ge [OF m])
      finally show ?thesis using eq by simp
    next
      assume m: "(e, d) \<in> set (combinations2 ?ds)"
      have "snd (optimize_single_dish opt d) \<le> snd (optimize_two_dishes opt e d)"
        by (rule two_ge_single(2) [OF assms(2) p])
      also have "\<dots> \<le> two_item_best_profit opt"
        unfolding two_item_best_profit_def by (rule two_phase_ge [OF m])
      finally show ?thesis using eq by simp
    qed
  qed
qed

theorem C2_two_item_search_dominates_witness:
  "2 \<le> length (unlocked_dishes kitchen) \<and> pool_nonneg (total_ingredients kitchen) \<and>
   list_all (\<lambda>d. 0 \<le> price d) (unlocked_dishes kitchen) \<and>
   single_item_best_profit kitchen \<le> two_item_best_profit kitchen"
proof -
  have l: "2 \<le> length (unlocked_dishes kitchen)" by (simp add: kitchen_def)
  have p: "\<forall>d \<in> set (unlocked_dishes kitchen). 0 \<le> price d"
    by (simp add: kitchen_def dish_stew_def dish_soup_def)
  show ?thesis
    using C2_two_item_search_dominates [OF l kitchen_pool p] l kitchen_pool p
    by (simp add: list_all_iff)
qed

lemma kitchen_profits: "single_item_best_profit kitchen = 60 \<and> two_item_best_profit kitchen = 70"
  by code_simp

lemma cursed_built:
  "RestaurantOptimizer [dish_sour] [''pot'' \<mapsto> 3] [''x''] [''x'' \<mapsto> 1] Map.empty
     (Finite (- 2)) 2 = Inr cursed"
  by (auto simp: RestaurantOptimizer_def minutes_of_minus_2 cursed_def dish_sour_def get0_def
      fun_eq_iff)

lemma pair_outer_le_single:
  assumes pick: "pair_pick opt d1 d2 c1 c2" and nd: "\<not> degenerate d1"
  shows "c1 \<le> fst (optimize_single_dish opt d1)"
proof -
  from pick obtain u where
    tl: "c1 \<le> calc_time_limit opt d1"
    and u: "used_loop (ingredients d1) c1 (total_ingredients opt) Map.empty = Some u"
    by (auto simp: pair_pick_def)
  have feas: "\<forall>(n, r) \<in> set (ingredients d1). c1 * r \<le> get0 (total_ingredients opt) n"
    using used_loop_Some_iff [of "ingredients d1" c1 "total_ingredients opt" Map.empty] u
    by simp
  have "\<forall>(n, r) \<in> set (ingredients d1). 0 < r
          \<longrightarrow> c1 \<le> get0 (total_ingredients opt) n div r"
    using feas by (auto intro: le_div_of_mult_le)
  from cil_ge [OF nd this] tl show ?thesis
    by (simp add: optimize_single_dish_def Let_def)
qed

lemma pair_zero_outer:
  assumes "pair_pick opt d1 d2 0 c2"
  shows "c2 = fst (optimize_single_dish opt d2)"
  using assms inner_count_at_zero by (auto simp: pair_pick_def)

lemma pair_both_positive:
  assumes pick: "pair_pick opt d1 d2 c1 c2"
    and pool: "pool_nonneg (total_ingredients opt)"
    and nd: "\<not> degenerate d1"
    and sign: "0 \<le> time_limit opt \<or> (0 \<le> price d1 \<and> 0 \<le> price d2)"
    and gt1: "snd (optimize_single_dish opt d1) < c1 * price d1 + c2 * price d2"
    and gt2: "snd (optimize_single_dish opt d2) < c1 * price d1 + c2 * price d2"
    and pos: "0 < c1 * price d1 + c2 * price d2"
  shows "1 \<le> c1 \<and> 1 \<le> c2"
proof -
  have c1: "0 \<le> c1" using pick by (simp add: pair_pick_def)
  have le1: "c1 \<le> fst (optimize_single_dish opt d1)" by (rule pair_outer_le_single [OF pick nd])
  have "c1 \<noteq> 0"
  proof
    assume z: "c1 = 0"
    then have "c2 = fst (optimize_single_dish opt d2)" using pick pair_zero_outer by simp
    then show False using gt2 z by (simp add: single_profit)
  qed
  then have one: "1 \<le> c1" using c1 by linarith
  have "\<not> c2 \<le> 0"
  proof
    assume neg: "c2 \<le> 0"
    have outer: "c1 * price d1 \<le> snd (optimize_single_dish opt d1)" if "0 \<le> price d1"
      using le1 that by (simp add: single_profit mult_right_mono)
    from sign show False
    proof
      assume T: "0 \<le> time_limit opt"
      have "0 \<le> c2" by (rule pair_pick_inner_nonneg [OF pool T pick])
      then have z: "c2 = 0" using neg by linarith
      show False
      proof (cases "0 \<le> price d1")
        case True
        then show ?thesis using outer gt1 z by simp
      next
        case False
        then have "c1 * price d1 \<le> 0" using c1 by (simp add: mult_nonneg_nonpos)
        then show ?thesis using pos z by simp
      qed
    next
      assume p: "0 \<le> price d1 \<and> 0 \<le> price d2"
      then have "c2 * price d2 \<le> 0" using neg by (simp add: mult_nonpos_nonneg)
      then show False using outer gt1 p by linarith
    qed
  qed
  then show ?thesis using one by linarith
qed

lemma search_counts_positive:
  assumes nd: "\<forall>d \<in> set (unlocked_dishes opt). \<not> degenerate d"
    and pool: "pool_nonneg (total_ingredients opt)"
    and sign: "0 \<le> time_limit opt \<or> (\<forall>d \<in> set (unlocked_dishes opt). 0 \<le> price d)"
  shows "0 \<le> profit (search opt) \<and> (\<forall>c \<in> set (counts (search opt)). 1 \<le> c)"
proof (rule search_induct)
  show "0 \<le> profit empty_solution \<and> (\<forall>c \<in> set (counts empty_solution). 1 \<le> c)"
    by (simp add: empty_solution_def)
next
  fix d :: Dish and b b' :: BestSolution
  assume d: "d \<in> set (unlocked_dishes opt)"
    and b: "0 \<le> profit b \<and> (\<forall>c \<in> set (counts b). 1 \<le> c)"
    and lt: "profit b < snd (optimize_single_dish opt d)"
    and b': "counts b' = [fst (optimize_single_dish opt d)]"
      "profit b' = snd (optimize_single_dish opt d)"
  have pos: "0 < fst (optimize_single_dish opt d) * price d"
    using b lt by (simp add: single_profit)
  have "0 < fst (optimize_single_dish opt d)"
    using sign
  proof
    assume "0 \<le> time_limit opt"
    then have "0 \<le> fst (optimize_single_dish opt d)" by (rule single_count_nonneg [OF pool])
    moreover have "fst (optimize_single_dish opt d) \<noteq> 0" using pos by auto
    ultimately show ?thesis by linarith
  next
    assume "\<forall>d \<in> set (unlocked_dishes opt). 0 \<le> price d"
    then have "0 \<le> price d" using d by simp
    then show ?thesis using pos by (simp add: zero_less_mult_iff)
  qed
  then show "0 \<le> profit b' \<and> (\<forall>c \<in> set (counts b'). 1 \<le> c)"
    using b' b lt by simp
next
  fix d1 d2 :: Dish and b b' :: BestSolution
  assume d1: "d1 \<in> set (unlocked_dishes opt)" and d2: "d2 \<in> set (unlocked_dishes opt)"
    and nonneg: "0 \<le> profit b"
    and ge: "\<forall>d \<in> set (unlocked_dishes opt). snd (optimize_single_dish opt d) \<le> profit b"
    and lt: "profit b < snd (optimize_two_dishes opt d1 d2)"
    and b': "counts b' = fst (optimize_two_dishes opt d1 d2)"
      "profit b' = snd (optimize_two_dishes opt d1 d2)"
  from optimize_two_cases [of opt d1 d2] obtain x y where
    res: "optimize_two_dishes opt d1 d2 = ([x, y], x * price d1 + y * price d2)"
    and pick: "pair_pick opt d1 d2 x y \<or> pair_pick opt d2 d1 y x"
    using nonneg lt by auto
  let ?p = "x * price d1 + y * price d2"
  have gt: "snd (optimize_single_dish opt d1) < ?p" "snd (optimize_single_dish opt d2) < ?p"
    "0 < ?p"
    using ge d1 d2 lt nonneg res by auto
  have s12: "0 \<le> time_limit opt \<or> (0 \<le> price d1 \<and> 0 \<le> price d2)"
    using sign d1 d2 by auto
  have "1 \<le> x \<and> 1 \<le> y"
    using pick
  proof
    assume p: "pair_pick opt d1 d2 x y"
    show ?thesis
      by (rule pair_both_positive [OF p pool _ s12 gt]) (use nd d1 in simp)
  next
    assume p: "pair_pick opt d2 d1 y x"
    have s21: "0 \<le> time_limit opt \<or> (0 \<le> price d2 \<and> 0 \<le> price d1)" using s12 by auto
    have g: "snd (optimize_single_dish opt d2) < y * price d2 + x * price d1"
      "snd (optimize_single_dish opt d1) < y * price d2 + x * price d1"
      "0 < y * price d2 + x * price d1"
      using gt by (simp_all add: add.commute)
    have "1 \<le> y \<and> 1 \<le> x"
      by (rule pair_both_positive [OF p pool _ s21 g]) (use nd d2 in simp)
    then show ?thesis by simp
  qed
  then show "0 \<le> profit b' \<and> (\<forall>c \<in> set (counts b'). 1 \<le> c)"
    using b' res nonneg lt by simp
qed

subsection \<open>Claim C9: no entry with a zero count\<close>

text \<open>
  C9 as stated (positive requirements and a non-negative pool are enough for every
  returned count to be at least 1) fails when the horizon and a price are both
  negative: the time limit is then negative, the single-dish count is -2, and its
  product with the price -1 is a positive profit, so the entry is returned.
\<close>

theorem C9_negative_count_counterexample:
  "list_all (\<lambda>d. \<not> degenerate d) (unlocked_dishes cursed) \<and>
   pool_nonneg (total_ingredients cursed) \<and>
   map count (fst (find_best_solution cursed)) = [- 2]"
proof -
  have "\<not> degenerate dish_sour" by (simp add: degenerate_def dish_sour_def)
  moreover have "pool_nonneg (total_ingredients cursed)"
    by (simp add: pool_nonneg_def cursed_def get0_def)
  moreover have "map count (fst (find_best_solution cursed)) = [- 2]" by code_simp
  ultimately show ?thesis by (simp add: cursed_def)
qed

text \<open>
  C9, amended. If every produceable dish has a requirement with positive quantity, the
  pool is non-negative, and the horizon is non-negative or no price is negative, then
  every entry returned by \<open>find_best_solution\<close> has a count of at least 1: a pair in
  which one count is 0 never strictly beats the best single-dish profit.
\<close>

theorem C9_counts_positive:
  assumes "\<forall>d \<in> set (unlocked_dishes opt). \<not> degenerate d"
    and "pool_nonneg (total_ingredients opt)"
    and "0 \<le> time_limit opt \<or> (\<forall>d \<in> set (unlocked_dishes opt). 0 \<le> price d)"
    and "find_best_solution opt = (sols, plan)"
  shows "\<forall>s \<in> set sols. 1 \<le> count s"
proof
  fix s assume s: "s \<in> set sols"
  have alloc: "allocation sols = zip (dishes (search opt)) (counts (search opt))"
    using find_best_allocation [of opt] assms(4) by simp
  have "(dish s, count s) \<in> set (allocation sols)" using s by (auto simp: allocation_def)
  then have "count s \<in> set (counts (search opt))"
    unfolding alloc by (rule set_zip_rightD)
  then show "1 \<le> count s"
    using search_counts_positive [OF assms(1,2,3)] by simp
qed

theorem C9_counts_positive_witness:
  "list_all (\<lambda>d. \<not> degenerate d) (unlocked_dishes kitchen) \<and>
   pool_nonneg (total_ingredients kitchen) \<and> 0 \<le> time_limit kitchen \<and>
   list_all (\<lambda>s. 1 \<le> count s) (fst (find_best_solution kitchen)) \<and>
   map count (fst (find_best_solution kitchen)) = [2, 1]"
proof -
  have nd: "\<forall>d \<in> set (unlocked_dishes kitchen). \<not> degenerate d"
    by (simp add: kitchen_def degenerate_def dish_stew_def dish_soup_def)
  have t: "0 \<le> time_limit kitchen \<or> (\<forall>d \<in> set (unlocked_dishes kitchen). 0 \<le> price d)"
    by (simp add: kitchen_def)
  have r: "find_best_solution kitchen =
             (fst (find_best_solution kitchen), snd (find_best_solution kitchen))"
    by simp
  have v: "map count (fst (find_best_solution kitchen)) = [2, 1]" by code_simp
  show ?thesis
    using C9_counts_positive [OF nd kitchen_pool t r] nd kitchen_pool v
    by (simp add: list_all_iff kitchen_def)
qed

lemma bar_ratio_loop_props:
  assumes "distinct (map fst xs)" "0 \<le> c"
    and "\<forall>(i, r) \<in> set xs. 0 \<le> r \<and> c * r \<le> get0 cur i"
    and "0 \<le> ratio \<and> ratio \<le> 1"
  shows "0 \<le> fst (bar_ratio_loop xs c ratio cur) \<and> fst (bar_ratio_loop xs c ratio cur) \<le> 1 \<and>
         (\<forall>n. get0 (snd (bar_ratio_loop xs c ratio cur)) n = get0 cur n - c * get0 (map_of xs) n)"
  using assms
proof (induction xs arbitrary: ratio cur)
  case Nil
  then show ?case by (simp add: get0_def)
next
  case (Cons x xs)
  obtain i r where x: "x = (i, r)" by (cases x)
  from Cons.prems(1) x have d: "distinct (map fst xs)" and fresh: "i \<notin> fst ` set xs" by auto
  have absent: "get0 (map_of xs) i = 0"
    using fresh by (simp add: get0_def map_of_eq_None_iff [THEN iffD2])
  have head: "0 \<le> r" "c * r \<le> get0 cur i" using Cons.prems(3) x by auto
  have tail: "\<forall>(j, q) \<in> set xs. 0 \<le> q \<and> c * q \<le> get0 cur j" using Cons.prems(3) by auto
  have mo: "get0 (map_of (x # xs)) n = (if n = i then r else get0 (map_of xs) n)" for n
    using x by (simp add: get0_def)
  show ?case
  proof (cases "r \<le> 0")
    case True
    then have r0: "r = 0" using head(1) by simp
    have step: "bar_ratio_loop (x # xs) c ratio cur = bar_ratio_loop xs c ratio cur"
      using x True by simp
    from Cons.IH [OF d Cons.prems(2) tail Cons.prems(4)]
    show ?thesis unfolding step mo using r0 absent by auto
  next
    case False
    then have rpos: "0 < r" by simp
    define mm where "mm = get0 cur i div r"
    define cr :: rat where
      "cr = (if mm > 0 then double_of_rat (of_int c / of_int mm) else 0)"
    define cur' where "cur' = cur(i \<mapsto> get0 cur i - r * c)"
    have cmm: "c \<le> mm" unfolding mm_def using rpos head(2) by (rule le_div_of_mult_le)
    have crb: "0 \<le> cr \<and> cr \<le> 1"
      using double_ratio_bounds [OF Cons.prems(2) cmm] by (simp add: cr_def)
    have noclamp: "\<not> get0 cur i - r * c < 0" using head(2) by (simp add: mult.commute)
    have step: "bar_ratio_loop (x # xs) c ratio cur = bar_ratio_loop xs c (max cr ratio) cur'"
      using x False noclamp by (simp add: Let_def mm_def cr_def cur'_def)
    have g': "get0 cur' n = (if n = i then get0 cur i - r * c else get0 cur n)" for n
      by (simp add: cur'_def get0_upd)
    have tail': "\<forall>(j, q) \<in> set xs. 0 \<le> q \<and> c * q \<le> get0 cur' j"
      using tail fresh by (force simp: g')
    have rb: "0 \<le> max cr ratio \<and> max cr ratio \<le> 1"
      using crb Cons.prems(4) by (auto simp: max_def)
    from Cons.IH [OF d Cons.prems(2) tail' rb]
    show ?thesis unfolding step mo g' using absent by (auto simp: mult.commute)
  qed
qed

lemma calc_bar_ratio_props:
  assumes keys: "dict_keys_ok d" and reqs: "requirements_nonneg d" and c: "0 \<le> c"
    and fits: "\<forall>n. c * required d n \<le> get0 pool n"
  shows "0 \<le> fst (calc_bar_ratio d c pool) \<and> fst (calc_bar_ratio d c pool) \<le> 1 \<and>
         (\<forall>n. get0 (snd (calc_bar_ratio d c pool)) n = get0 pool n - c * required d n)"
proof -
  have "\<forall>(i, r) \<in> set (ingredients d). 0 \<le> r \<and> c * r \<le> get0 pool i"
  proof (intro ballI, clarify)
    fix i r assume mem: "(i, r) \<in> set (ingredients d)"
    have "required d i = r"
      using keys mem by (simp add: required_def dict_keys_ok_def get0_def)
    then show "0 \<le> r \<and> c * r \<le> get0 pool i"
      using reqs mem fits by (auto simp: requirements_nonneg_def)
  qed
  from bar_ratio_loop_props [OF _ c this, of 0] keys show ?thesis
    by (simp add: calc_bar_ratio_def dict_keys_ok_def required_def)
qed

text \<open>
  The loop of \<open>calc_bar_ratio\<close> reads every key once, so the ratio it returns is the
  maximum of the specification, taken against the pool it was given.
\<close>

lemma bar_ratio_loop_spec:
  assumes "distinct (map fst xs)"
  shows "fst (bar_ratio_loop xs c ratio cur) =
           fold max (map (ingredient_ratio c (get0 cur)) (filter (\<lambda>(i, r). r > 0) xs)) ratio"
  using assms
proof (induction xs arbitrary: ratio cur)
  case Nil
  then show ?case by simp
next
  case (Cons x xs)
  obtain i r where x: "x = (i, r)" by (cases x)
  from Cons.prems x have d: "distinct (map fst xs)" and fresh: "i \<notin> fst ` set xs" by auto
  show ?case
  proof (cases "r \<le> 0")
    case True
    then show ?thesis using x Cons.IH [OF d] by simp
  next
    case False
    define cur' where
      "cur' = cur(i \<mapsto> (if get0 cur i - r * c < 0 then 0 else get0 cur i - r * c))"
    define cr where "cr = ingredient_ratio c (get0 cur) (i, r)"
    have step: "bar_ratio_loop (x # xs) c ratio cur = bar_ratio_loop xs c (max cr ratio) cur'"
      using x False by (simp add: Let_def cr_def cur'_def ingredient_ratio_def)
    have same: "ingredient_ratio c (get0 cur') y = ingredient_ratio c (get0 cur) y"
      if "y \<in> set (filter (\<lambda>(i, r). r > 0) xs)" for y
    proof -
      obtain j q where y: "y = (j, q)" by (cases y)
      have "j \<noteq> i" using that fresh y by force
      then show ?thesis by (simp add: y ingredient_ratio_def cur'_def get0_upd)
    qed
    have eq: "map (ingredient_ratio c (get0 cur')) (filter (\<lambda>(i, r). r > 0) xs)
            = map (ingredient_ratio c (get0 cur)) (filter (\<lambda>(i, r). r > 0) xs)"
      using same by (intro map_cong) simp_all
    show ?thesis
      unfolding step Cons.IH [OF d] eq using x False by (simp add: cr_def)
  qed
qed

lemma calc_bar_ratio_spec:
  assumes "dict_keys_ok d"
  shows "fst (calc_bar_ratio d c pool) = spec_fill_ratio d c (get0 pool)"
proof -
  have "distinct (map fst (ingredients d))" using assms by (simp add: dict_keys_ok_def)
  then have "fst (calc_bar_ratio d c pool) =
      fold max (map (ingredient_ratio c (get0 pool))
                  (filter (\<lambda>(i, r). r > 0) (ingredients d))) 0"
    unfolding calc_bar_ratio_def by (rule bar_ratio_loop_spec)
  then show ?thesis unfolding spec_fill_ratio_def Max.set_eq_fold .
qed

lemma demand_nonneg:
  assumes "list_all (\<lambda>(d, c). requirements_nonneg d \<and> 0 \<le> c) alloc"
  shows "0 \<le> demand alloc n"
  using assms
proof (induction alloc)
  case Nil
  then show ?case by (simp add: demand_def)
next
  case (Cons x alloc)
  obtain d c where x: "x = (d, c)" by (cases x)
  from Cons.prems x have r: "requirements_nonneg d" and c: "0 \<le> c"
    and rest: "list_all (\<lambda>(d, c). requirements_nonneg d \<and> 0 \<le> c) alloc" by simp_all
  have "0 \<le> required d n"
    using r required_cases [of d n] by (auto simp: requirements_nonneg_def)
  then show ?case using x c Cons.IH [OF rest] by (simp add: demand_Cons)
qed

lemma threaded_ratios_length [simp]: "length (threaded_ratios pool alloc) = length alloc"
  by (induction alloc arbitrary: pool) auto

lemma threaded_ratios_spec:
  assumes "list_all (\<lambda>(d, c). dict_keys_ok d \<and> requirements_nonneg d \<and> 0 \<le> c) alloc"
    and "\<forall>n. demand alloc n \<le> get0 pool n"
    and "j < length alloc"
  shows "0 \<le> threaded_ratios pool alloc ! j \<and> threaded_ratios pool alloc ! j \<le> 1 \<and>
         threaded_ratios pool alloc ! j =
           spec_fill_ratio (fst (alloc ! j)) (snd (alloc ! j))
             (\<lambda>n. get0 pool n - demand (take j alloc) n)"
  using assms
proof (induction alloc arbitrary: pool j)
  case Nil
  then show ?case by simp
next
  case (Cons x alloc)
  obtain d c where x: "x = (d, c)" by (cases x)
  from Cons.prems(1) x have k: "dict_keys_ok d" and r: "requirements_nonneg d" and c: "0 \<le> c"
    and rest: "list_all (\<lambda>(d, c). dict_keys_ok d \<and> requirements_nonneg d \<and> 0 \<le> c) alloc"
    by simp_all
  have rest': "list_all (\<lambda>(d, c). requirements_nonneg d \<and> 0 \<le> c) alloc"
    using rest by (auto simp: list_all_iff)
  have sum: "c * required d n + demand alloc n \<le> get0 pool n" for n
    using Cons.prems(2) x by (simp add: demand_Cons)
  have fits: "\<forall>n. c * required d n \<le> get0 pool n"
  proof
    fix n show "c * required d n \<le> get0 pool n"
      using sum [of n] demand_nonneg [OF rest', of n] by linarith
  qed
  note p = calc_bar_ratio_props [OF k r c fits]
  define pool' where "pool' = snd (calc_bar_ratio d c pool)"
  have g: "get0 pool' n = get0 pool n - c * required d n" for n
    using p by (simp add: pool'_def)
  show ?case
  proof (cases j)
    case 0
    have "demand [] n = 0" for n by (simp add: demand_def)
    then have "(\<lambda>n. get0 pool n - demand (take 0 (x # alloc)) n) = get0 pool"
      by (simp add: fun_eq_iff)
    then show ?thesis using 0 x p calc_bar_ratio_spec [OF k, of c pool] by simp
  next
    case (Suc i)
    then have i: "i < length alloc" using Cons.prems(3) by simp
    have le: "\<forall>n. demand alloc n \<le> get0 pool' n"
      using sum by (simp add: g le_diff_eq add.commute)
    have left: "(\<lambda>n. get0 pool' n - demand (take i alloc) n)
                  = (\<lambda>n. get0 pool n - demand (take (Suc i) (x # alloc)) n)"
      by (simp add: fun_eq_iff g x demand_Cons)
    from Cons.IH [OF rest le i] show ?thesis
      unfolding left using Suc x by (simp add: pool'_def)
  qed
qed

lemma realize_loop_ratios:
  "map bar_ratio (fst (realize_loop opt alloc sols plan rem))
     = map bar_ratio sols @ threaded_ratios rem alloc"
proof (induction alloc arbitrary: sols plan rem)
  case Nil
  then show ?case by simp
next
  case (Cons x alloc)
  obtain d c where x: "x = (d, c)" by (cases x)
  show ?case using x Cons.IH by (simp add: case_prod_unfold Let_def)
qed

lemma find_best_ratios:
  "map bar_ratio (fst (find_best_solution opt))
     = threaded_ratios (total_ingredients opt) (allocation (fst (find_best_solution opt)))"
  unfolding find_best_allocation
  using realize_loop_ratios [of opt "zip (dishes (search opt)) (counts (search opt))" "[]"
      Map.empty "total_ingredients opt"]
  by (simp add: find_best_solution_def Let_def realize_def case_prod_unfold)

subsection \<open>Claim C3: the fill ratio\<close>

text \<open>
  C3, evaluated on a catalog whose first dish has a negative requirement quantity, with
  a non-negative pool (one unit of the ingredient) and a horizon of 24 hours. The
  ingredient limit and the bar ratio skip a requirement that is not positive: the
  single-dish search gives the first dish the count 0. The outer loop of
  \<open>optimize_two_dishes\<close> does not skip it: it records \<open>count1 * required\<close> as used, so
  24 units of the first dish leave 25 units in the pool that bounds the second. The
  second entry then asks for 24 units where the realizer finds 1 makeable, and its
  fill ratio is 24.
\<close>

theorem C3_fill_ratio_above_one:
  "pool_nonneg (total_ingredients surplus) \<and> 0 < time_limit surplus \<and>
   calc_ingredient_limit dish_neg (total_ingredients surplus) = 0 \<and>
   optimize_single_dish surplus dish_neg = (0, 0) \<and>
   optimize_two_dishes surplus dish_neg dish_plain = ([24, 24], 48) \<and>
   allocation (fst (find_best_solution surplus)) = [(dish_neg, 24), (dish_plain, 24)] \<and>
   calc_ingredient_limit dish_plain (total_ingredients surplus) = 1 \<and>
   map bar_ratio (fst (find_best_solution surplus)) = [0, 24]"
proof -
  have "pool_nonneg (total_ingredients surplus)"
    by (simp add: pool_nonneg_def surplus_def get0_def)
  moreover have "0 < time_limit surplus" by (simp add: surplus_def)
  moreover have "calc_ingredient_limit dish_neg (total_ingredients surplus) = 0" by code_simp
  moreover have "optimize_single_dish surplus dish_neg = (0, 0)" by code_simp
  moreover have "optimize_two_dishes surplus dish_neg dish_plain = ([24, 24], 48)" by code_simp
  moreover have "allocation (fst (find_best_solution surplus))
                   = [(dish_neg, 24), (dish_plain, 24)]" by code_simp
  moreover have "calc_ingredient_limit dish_plain (total_ingredients surplus) = 1" by code_simp
  moreover have "map bar_ratio (fst (find_best_solution surplus)) = [0, 24]" by code_simp
  ultimately show ?thesis by simp
qed

text \<open>
  When no requirement quantity is negative, the outer loop and the realizer agree on
  what an allocation consumes. With a non-negative pool and a positive horizon, every
  entry returned by \<open>find_best_solution\<close> then has a fill ratio in [0,1], and the ratio
  of the entry at position \<open>j\<close> is the ratio of the specification against the total
  pool minus what the entries before \<open>j\<close> require.
\<close>

lemma fill_ratio_nonneg_requirements:
  assumes "pool_nonneg (total_ingredients opt)"
    and "0 < time_limit opt"
    and "\<forall>d \<in> set (unlocked_dishes opt). dict_keys_ok d"
    and "\<forall>d \<in> set (unlocked_dishes opt). requirements_nonneg d"
    and "find_best_solution opt = (sols, plan)"
    and "j < length sols"
  shows "0 \<le> bar_ratio (sols ! j) \<and> bar_ratio (sols ! j) \<le> 1 \<and>
         bar_ratio (sols ! j) =
           spec_fill_ratio (dish (sols ! j)) (count (sols ! j))
             (\<lambda>n. get0 (total_ingredients opt) n - demand (take j (allocation sols)) n)"
proof -
  let ?alloc = "zip (dishes (search opt)) (counts (search opt))"
  have alloc: "allocation sols = ?alloc"
    using find_best_allocation [of opt] assms(5) by simp
  have thread: "map bar_ratio sols = threaded_ratios (total_ingredients opt) (allocation sols)"
    using find_best_ratios [of opt] assms(5) by simp
  have T: "0 \<le> time_limit opt" using assms(2) by simp
  have "\<forall>x \<in> set ?alloc. dict_keys_ok (fst x) \<and> requirements_nonneg (fst x) \<and> 0 \<le> snd x"
  proof
    fix x assume x: "x \<in> set ?alloc"
    then have "fst x \<in> set (dishes (search opt))"
      by (metis prod.collapse set_zip_leftD)
    then have "fst x \<in> set (unlocked_dishes opt)" using search_members [of opt] by auto
    moreover have "0 \<le> snd x" using search_counts_nonneg [OF assms(1) T] x by auto
    ultimately show "dict_keys_ok (fst x) \<and> requirements_nonneg (fst x) \<and> 0 \<le> snd x"
      using assms(3,4) by simp
  qed
  then have ok: "list_all (\<lambda>(d, c). dict_keys_ok d \<and> requirements_nonneg d \<and> 0 \<le> c)
                   (allocation sols)"
    unfolding alloc by (simp add: list_all_iff case_prod_unfold)
  have fits: "\<forall>n. demand (allocation sols) n \<le> get0 (total_ingredients opt) n"
    unfolding alloc using search_demand_le [OF assms(1,3)] T by simp
  have j: "j < length (allocation sols)" using assms(6) by (simp add: allocation_def)
  have nth: "bar_ratio (sols ! j) = threaded_ratios (total_ingredients opt) (allocation sols) ! j"
    using thread assms(6) by (metis nth_map)
  have entry: "fst (allocation sols ! j) = dish (sols ! j)"
    "snd (allocation sols ! j) = count (sols ! j)"
    using assms(6) by (simp_all add: allocation_def)
  from threaded_ratios_spec [OF ok fits j] show ?thesis
    unfolding nth entry by simp
qed

lemma fill_ratio_kitchen:
  "map bar_ratio (fst (find_best_solution kitchen)) = [1, 1] \<and>
   spec_fill_ratio dish_stew 2 (\<lambda>n. get0 (total_ingredients kitchen) n) = 1 \<and>
   spec_fill_ratio dish_soup 1
     (\<lambda>n. get0 (total_ingredients kitchen) n - demand [(dish_stew, 2)] n) = 1"
  by code_simp

end
